theory Spec2Isabelle
  imports Main "HOL-Library.Monad_Syntax"
begin

section \<open>Values, error objects and the store\<close>

text \<open>
  The library decorates error objects in place and hands the same reference back, so
  error objects live in a store and are named by addresses. Plain objects that serve as
  \<open>info\<close> also live in the store: \<open>Object.assign\<close> writes into one of them, and a
  statement that a query leaves its argument alone needs them to have an identity.

  Strings are lists of 8-bit characters, one per code unit; numbers are the integers and
  \<open>NaN\<close>. An error argument is \<open>null\<close>, \<open>undefined\<close> or a reference to an
  error-shaped object (an object whose \<open>info\<close>, \<open>cause\<close>, \<open>stack\<close> and
  \<open>_oErrorTags\<close> properties may each be absent).
\<close>

type_synonym addr = nat

datatype jsval = JUndefined | JNull | JBool bool | JNum int | JNaN | JStr string | JObj addr

datatype errval = Undefined | Null | Ref addr

text \<open>The optional \<open>message\<close> argument of the tagging functions: \<open>string | null | undefined\<close>.\<close>

datatype msgval = MsgUndefined | MsgNull | MsgString string

datatype js_error = TypeError

text \<open>
  What a tag object carries. With \<open>Error.captureStackTrace\<close> it is the object literal
  \<open>{ name: 'TaggedError', message, info }\<close> plus the captured \<open>stack\<close>; without, it is
  a \<open>new TaggedError(message || '', info)\<close>. \<open>None\<close> is an absent property.
\<close>

record tagged_error =
  tag_name :: string
  tag_message :: msgval
  tag_info :: "jsval option"
  tag_stack :: "string option"

text \<open>
  A slot of the \<open>_oErrorTags\<close> array. \<open>DROPPED_TAGS_ERROR\<close> is one shared object that
  the code recognises by identity (\<open>===\<close>), so it is a constructor of its own and no
  freshly made tag is equal to it. \<open>Hole\<close> is an empty slot of a sparse array.
\<close>

datatype tag_entry = Hole | DROPPED_TAGS_ERROR | Tagged tagged_error

record oerror =
  message :: string
  name :: string
  info :: "jsval option"
  cause :: "errval option"
  stack :: "string option"
  oErrorTags :: "tag_entry list option"

record store =
  errors :: "addr \<Rightarrow> oerror"
  objects :: "addr \<Rightarrow> (string \<rightharpoonup> jsval)"
  next_error :: addr
  next_object :: addr
  maxTags :: nat

text \<open>
  The platform, as far as tagging depends on it. \<open>CaptureStackTrace t\<close>:
  \<open>Error.captureStackTrace\<close> exists, and \<open>t\<close> is the trace it records for the call site
  of the public entry point (the entry point passes itself as the function whose frame,
  and everything above it, is hidden). \<open>NoCaptureStackTrace st\<close>: it does not exist, and
  \<open>st\<close> is the \<open>stack\<close> the platform gives a newly constructed error, if it gives one.
\<close>

datatype platform = CaptureStackTrace string | NoCaptureStackTrace "string option"

datatype caller = OError_tag | OError_tagIfExists


section \<open>The built-ins the code relies on\<close>

fun truthy :: "jsval \<Rightarrow> bool" where
  "truthy JUndefined = False"
| "truthy JNull = False"
| "truthy (JBool b) = b"
| "truthy (JNum n) = (n \<noteq> 0)"
| "truthy JNaN = False"
| "truthy (JStr s) = (s \<noteq> [])"
| "truthy (JObj a) = True"

fun truthy_err :: "errval \<Rightarrow> bool" where
  "truthy_err Undefined = False"
| "truthy_err Null = False"
| "truthy_err (Ref a) = True"

text \<open>\<open>typeof v === 'object'\<close>: true of objects and of \<open>null\<close>.\<close>

fun typeof_object :: "jsval \<Rightarrow> bool" where
  "typeof_object JNull = True"
| "typeof_object (JObj a) = True"
| "typeof_object v = False"

text \<open>Reading a property that may be absent gives \<open>undefined\<close>.\<close>

definition get_info :: "oerror \<Rightarrow> jsval" where
  "get_info e = (case info e of None \<Rightarrow> JUndefined | Some v \<Rightarrow> v)"

definition get_cause :: "oerror \<Rightarrow> errval" where
  "get_cause e = (case cause e of None \<Rightarrow> Undefined | Some c \<Rightarrow> c)"

definition get_tag_info :: "tagged_error \<Rightarrow> jsval" where
  "get_tag_info t = (case tag_info t of None \<Rightarrow> JUndefined | Some v \<Rightarrow> v)"

definition newline :: string where
  "newline = [CHR 0x0A]"

text \<open>The decimal numeral of an array index, as a property key.\<close>

fun digit :: "nat \<Rightarrow> char" where
  "digit n = char_of (48 + n)"

fun string_of_nat :: "nat \<Rightarrow> string" where
  "string_of_nat n = (if n < 10 then [digit n] else string_of_nat (n div 10) @ [digit (n mod 10)])"

text \<open>
  The own enumerable properties \<open>Object.assign\<close> copies from a source: those of an
  object, the indexed characters of a string, nothing for any other primitive.
\<close>

definition own_enumerable :: "(addr \<Rightarrow> (string \<rightharpoonup> jsval)) \<Rightarrow> jsval \<Rightarrow> (string \<rightharpoonup> jsval)" where
  "own_enumerable objs v =
     (case v of
        JObj a \<Rightarrow> objs a
      | JStr str \<Rightarrow> map_of (zip (map string_of_nat [0..<length str]) (map (\<lambda>c. JStr [c]) str))
      | _ \<Rightarrow> Map.empty)"

text \<open>\<open>Object.assign(target, source)\<close>: later keys overwrite earlier ones.\<close>

definition Object_assign :: "store \<Rightarrow> addr \<Rightarrow> jsval \<Rightarrow> store" where
  "Object_assign s target source =
     s\<lparr>objects := (objects s)(target := objects s target ++ own_enumerable (objects s) source)\<rparr>"

text \<open>The object literal \<open>{}\<close>.\<close>

definition new_object :: "store \<Rightarrow> addr \<times> store" where
  "new_object s =
     (next_object s,
      s\<lparr>objects := (objects s)(next_object s := Map.empty), next_object := Suc (next_object s)\<rparr>)"

text \<open>\<open>xs[i] = v\<close>: a write past the end extends the array, leaving holes before \<open>i\<close>.\<close>

definition array_set :: "tag_entry list \<Rightarrow> nat \<Rightarrow> tag_entry \<Rightarrow> tag_entry list" where
  "array_set xs i v =
     (if i < length xs then xs[i := v] else xs @ replicate (i - length xs) Hole @ [v])"

text \<open>\<open>xs[i] === v\<close> for an object \<open>v\<close>: reading past the end gives \<open>undefined\<close>.\<close>

definition array_is :: "tag_entry list \<Rightarrow> nat \<Rightarrow> tag_entry \<Rightarrow> bool" where
  "array_is xs i v = (i < length xs \<and> xs ! i = v \<and> v \<noteq> Hole)"

text \<open>\<open>xs.splice(start, count)\<close>, for the array that remains.\<close>

definition array_splice :: "'a list \<Rightarrow> nat \<Rightarrow> nat \<Rightarrow> 'a list" where
  "array_splice xs start count = take start xs @ drop (start + count) xs"

text \<open>\<open>xs.join(sep)\<close> on strings.\<close>

fun join :: "string \<Rightarrow> string list \<Rightarrow> string" where
  "join sep [] = []"
| "join sep [x] = x"
| "join sep (x # y # ys) = x @ sep @ join sep (y # ys)"


section \<open>The library: \<open>src/dist/index.js\<close>\<close>

subsection \<open>Constructor and fluent setters\<close>

text \<open>
  \<open>new C(message, info, cause)\<close> for \<open>C\<close> the class \<open>OError\<close> or a subclass of it
  with the inherited constructor; \<open>cls\<close> is \<open>C.name\<close> and \<open>st\<close> the \<open>stack\<close> the
  platform records.
\<close>

definition new_OError :: "store \<Rightarrow> string \<Rightarrow> string option \<Rightarrow> string \<Rightarrow> jsval \<Rightarrow> errval \<Rightarrow> errval \<times> store" where
  "new_OError s cls st m i c =
     (let this = next_error s;
          obj = \<lparr>message = m, name = cls,
                 info = (if truthy i then Some i else None),
                 cause = (if truthy_err c then Some c else None),
                 stack = st, oErrorTags = None\<rparr>
      in (Ref this, s\<lparr>errors := (errors s)(this := obj), next_error := Suc this\<rparr>))"

definition withInfo :: "store \<Rightarrow> addr \<Rightarrow> jsval \<Rightarrow> errval \<times> store" where
  "withInfo s this i = (Ref this, s\<lparr>errors := (errors s)(this := (errors s this)\<lparr>info := Some i\<rparr>)\<rparr>)"

definition withCause :: "store \<Rightarrow> addr \<Rightarrow> errval \<Rightarrow> errval \<times> store" where
  "withCause s this c = (Ref this, s\<lparr>errors := (errors s)(this := (errors s this)\<lparr>cause := Some c\<rparr>)\<rparr>)"

subsection \<open>Tagging\<close>

definition dropped_tags_fields :: tagged_error where
  "dropped_tags_fields =
     \<lparr>tag_name = ''TaggedError'', tag_message = MsgString ''... dropped tags'',
      tag_info = None, tag_stack = Some ''TaggedError: ... dropped tags''\<rparr>"

text \<open>The object behind a slot; a hole has none.\<close>

fun fields_of :: "tag_entry \<Rightarrow> tagged_error option" where
  "fields_of Hole = None"
| "fields_of DROPPED_TAGS_ERROR = Some dropped_tags_fields"
| "fields_of (Tagged t) = Some t"

text \<open>\<open>message || ''\<close>\<close>

fun message_or_empty :: "msgval \<Rightarrow> string" where
  "message_or_empty (MsgString m) = m"
| "message_or_empty v = ''''"

text \<open>
  \<open>Error.captureStackTrace(tag, fn)\<close> stores the trace on the object. The trace is the
  platform's; which frames it hides is decided by \<open>fn\<close>, and the trace the platform
  hands over is the one for the call site either way.
\<close>

definition captureStackTrace :: "string \<Rightarrow> tagged_error \<Rightarrow> caller \<Rightarrow> tagged_error" where
  "captureStackTrace trace t fn = t\<lparr>tag_stack := Some trace\<rparr>"

text \<open>\<open>new TaggedError(m, i)\<close>: the inherited constructor, with no cause.\<close>

definition new_TaggedError :: "string option \<Rightarrow> string \<Rightarrow> jsval \<Rightarrow> tagged_error" where
  "new_TaggedError st m i =
     \<lparr>tag_name = ''TaggedError'', tag_message = MsgString m,
      tag_info = (if truthy i then Some i else None), tag_stack = st\<rparr>"

text \<open>The tag object that a call builds (lines 91 to 99).\<close>

definition make_tag :: "platform \<Rightarrow> caller \<Rightarrow> msgval \<Rightarrow> jsval \<Rightarrow> tagged_error" where
  "make_tag plat fn m i =
     (case plat of
        CaptureStackTrace trace \<Rightarrow>
          captureStackTrace trace
            \<lparr>tag_name = ''TaggedError'', tag_message = m, tag_info = Some i, tag_stack = None\<rparr> fn
      | NoCaptureStackTrace st \<Rightarrow> new_TaggedError st (message_or_empty m) i)"

text \<open>\<open>if (!oError._oErrorTags) oError._oErrorTags = []\<close>, for the array that results.\<close>

definition tags_or_empty :: "oerror \<Rightarrow> tag_entry list" where
  "tags_or_empty oError = (case oErrorTags oError of None \<Rightarrow> [] | Some ts \<Rightarrow> ts)"

text \<open>Lines 100 to 108: what happens to the array before the new tag is pushed.\<close>

definition make_room :: "nat \<Rightarrow> tag_entry list \<Rightarrow> tag_entry list" where
  "make_room limit ts =
     (if length ts \<ge> limit
      then (if array_is ts 1 DROPPED_TAGS_ERROR
            then array_splice ts 2 1
            else array_set ts 1 DROPPED_TAGS_ERROR)
      else ts)"

text \<open>
  \<open>OError.tag(error, message, info)\<close>. A \<open>null\<close> or \<open>undefined\<close> error makes the first
  property read throw.
\<close>

definition tag :: "platform \<Rightarrow> store \<Rightarrow> errval \<Rightarrow> msgval \<Rightarrow> jsval \<Rightarrow> js_error + (errval \<times> store)" where
  "tag plat s error m i =
     (case error of
        Ref a \<Rightarrow>
          (let oError = errors s a;
               tags0 = tags_or_empty oError;
               t = make_tag plat OError_tag m i;
               tags1 = make_room (maxTags s) tags0;
               tags2 = tags1 @ [Tagged t]
           in Inr (error, s\<lparr>errors := (errors s)(a := oError\<lparr>oErrorTags := Some tags2\<rparr>)\<rparr>))
      | _ \<Rightarrow> Inl TypeError)"

subsection \<open>The merged info\<close>

text \<open>
  The loop over \<open>_oErrorTags\<close> (lines 130 to 133): \<open>Object.assign(info, tag.info)\<close> for
  each slot in turn. Reading \<open>.info\<close> of the \<open>undefined\<close> a hole yields throws.
\<close>

fun assign_tags :: "store \<Rightarrow> addr \<Rightarrow> tag_entry list \<Rightarrow> js_error option \<times> store" where
  "assign_tags s target [] = (None, s)"
| "assign_tags s target (t # ts) =
     (case fields_of t of
        None \<Rightarrow> (Some TypeError, s)
      | Some tg \<Rightarrow> assign_tags (Object_assign s target (get_tag_info tg)) target ts)"

text \<open>Lines 127 to 135, for the error at \<open>a\<close> and the object \<open>target\<close> being filled.\<close>

definition merge_own :: "store \<Rightarrow> addr \<Rightarrow> addr \<Rightarrow> (js_error + addr) \<times> store" where
  "merge_own s target a =
     (let oError = errors s a;
          s1 = (if typeof_object (get_info oError) then Object_assign s target (get_info oError) else s)
      in case oErrorTags oError of
           None \<Rightarrow> (Inr target, s1)
         | Some ts \<Rightarrow>
             (case assign_tags s1 target ts of
                (Some e, s2) \<Rightarrow> (Inl e, s2)
              | (None, s2) \<Rightarrow> (Inr target, s2)))"

text \<open>
  \<open>OError.getFullInfo(error)\<close>. The result is the address of the object allocated for
  \<open>info\<close>, with the store the call leaves behind; \<open>None\<close> is a call that never returns.
\<close>

partial_function (option) getFullInfo :: "store \<Rightarrow> errval \<Rightarrow> ((js_error + addr) \<times> store) option" where
  "getFullInfo s error =
     (case new_object s of
        (target, s0) \<Rightarrow>
          (case error of
             Ref a \<Rightarrow>
               (if truthy_err (get_cause (errors s0 a))
                then do {
                       (r, s1) \<leftarrow> getFullInfo s0 (get_cause (errors s0 a));
                       (case r of
                          Inl e \<Rightarrow> Some (Inl e, s1)
                        | Inr causeInfo \<Rightarrow> Some (merge_own (Object_assign s1 target (JObj causeInfo)) target a))
                     }
                else Some (merge_own s0 target a))
           | _ \<Rightarrow> Some (Inr target, s0)))"

declare getFullInfo.simps [code]

subsection \<open>The full stack\<close>

text \<open>
  \<open>string.replace(/^/gm, '    ')\<close>: four spaces at the start of the string and after
  every line terminator (of which 8-bit strings have two, line feed and carriage return).
\<close>

definition line_terminator :: "char \<Rightarrow> bool" where
  "line_terminator c = (c = CHR 0x0A \<or> c = CHR 0x0D)"

fun indent_rest :: "string \<Rightarrow> string" where
  "indent_rest [] = []"
| "indent_rest (c # cs) =
     (if line_terminator c then c # ''    '' @ indent_rest cs else c # indent_rest cs)"

definition indent :: "string \<Rightarrow> string" where
  "indent str = ''    '' @ indent_rest str"

text \<open>
  \<open>tags.map((tag) => tag.stack)\<close> as \<open>join\<close> prints it: \<open>map\<close> skips a hole and \<open>join\<close>
  prints a hole and an \<open>undefined\<close> stack as the empty string.
\<close>

definition entry_stack :: "tag_entry \<Rightarrow> string" where
  "entry_stack t =
     (case fields_of t of
        None \<Rightarrow> []
      | Some tg \<Rightarrow> (case tag_stack tg of None \<Rightarrow> [] | Some st \<Rightarrow> st))"

text \<open>Lines 148 to 151: the error's own stack and the stacks of its tags.\<close>

definition own_stack :: "oerror \<Rightarrow> string" where
  "own_stack oError =
     (let stack0 = (case stack oError of
                      None \<Rightarrow> ''(no stack)''
                    | Some st \<Rightarrow> if st = [] then ''(no stack)'' else st)
      in case oErrorTags oError of
           None \<Rightarrow> stack0
         | Some ts \<Rightarrow>
             if ts \<noteq> [] then stack0 @ newline @ join newline (map entry_stack ts) else stack0)"

partial_function (option) getFullStack :: "store \<Rightarrow> errval \<Rightarrow> string option" where
  "getFullStack s error =
     (case error of
        Ref a \<Rightarrow>
          (let oError = errors s a; stack1 = own_stack oError
           in if truthy_err (get_cause oError)
              then do {
                     causeStack \<leftarrow> getFullStack s (get_cause oError);
                     Some (if causeStack \<noteq> []
                           then stack1 @ newline @ ''caused by:'' @ newline @ indent causeStack
                           else stack1)
                   }
              else Some stack1)
      | _ \<Rightarrow> Some [])"

declare getFullStack.simps [code]


section \<open>The variant with \<open>tagIfExists\<close>: \<open>src/unnamed/part_000\<close>\<close>

text \<open>
  This file has no limit on the number of tags; its public \<open>tag\<close> and \<open>tagIfExists\<close>
  both hand over to the private \<open>_tag\<close>, each naming itself as the function to hide
  from the trace.
\<close>

definition priv_tag :: "platform \<Rightarrow> store \<Rightarrow> errval \<Rightarrow> msgval \<Rightarrow> jsval \<Rightarrow> caller \<Rightarrow> js_error + (errval \<times> store)" where
  "priv_tag plat s error m i fn =
     (case error of
        Ref a \<Rightarrow>
          (let oError = errors s a;
               tags0 = tags_or_empty oError;
               t = make_tag plat fn m i;
               tags1 = tags0 @ [Tagged t]
           in Inr (error, s\<lparr>errors := (errors s)(a := oError\<lparr>oErrorTags := Some tags1\<rparr>)\<rparr>))
      | _ \<Rightarrow> Inl TypeError)"

definition tag0 :: "platform \<Rightarrow> store \<Rightarrow> errval \<Rightarrow> msgval \<Rightarrow> jsval \<Rightarrow> js_error + (errval \<times> store)" where
  "tag0 plat s error m i = priv_tag plat s error m i OError_tag"

definition tagIfExists :: "platform \<Rightarrow> store \<Rightarrow> errval \<Rightarrow> msgval \<Rightarrow> jsval \<Rightarrow> js_error + (errval \<times> store)" where
  "tagIfExists plat s error m i =
     (if \<not> truthy_err error then Inr (error, s)
      else priv_tag plat s error m i OError_tagIfExists)"


section \<open>What the functions are measured against\<close>

text \<open>
  The cause chain of \<open>r\<close> ends within \<open>n\<close> errors: following \<open>cause\<close> from \<open>r\<close>
  meets an absent (or \<open>null\<close>) cause after at most \<open>n\<close> steps. A chain that ends is
  finite and never comes back to an error it has passed.
\<close>

fun chain_ends :: "(addr \<Rightarrow> oerror) \<Rightarrow> nat \<Rightarrow> errval \<Rightarrow> bool" where
  "chain_ends errs n Undefined = True"
| "chain_ends errs n Null = True"
| "chain_ends errs 0 (Ref a) = False"
| "chain_ends errs (Suc n) (Ref a) = chain_ends errs n (get_cause (errs a))"

text \<open>
  A store as the program can build one: an object an error or a tag names as its
  \<open>info\<close> has been allocated, and no tag array has a hole (none arises while
  \<open>maxTags\<close> is at least 1).
\<close>

definition allocated :: "store \<Rightarrow> jsval \<Rightarrow> bool" where
  "allocated s v = (case v of JObj ob \<Rightarrow> ob < next_object s | _ \<Rightarrow> True)"

definition entry_info :: "tag_entry \<Rightarrow> jsval" where
  "entry_info t = (case fields_of t of None \<Rightarrow> JUndefined | Some tg \<Rightarrow> get_tag_info tg)"

definition wf_error :: "store \<Rightarrow> oerror \<Rightarrow> bool" where
  "wf_error s e =
     (allocated s (get_info e)
      \<and> (\<forall>t \<in> set (tags_or_empty e). t \<noteq> Hole \<and> allocated s (entry_info t)))"

definition wf_store :: "store \<Rightarrow> bool" where
  "wf_store s = (\<forall>a. wf_error s (errors s a))"

text \<open>
  The merged info in the specification's words. Sources are merged in order and the last
  write wins; the sources of one error are its own \<open>info\<close>, if that is a mapping, and
  then the \<open>info\<close> of each tag in the order the tags were appended; the full info of an
  error merges the full info of its cause, if it has one, before the error's own sources.
\<close>

definition merge_all :: "(string \<rightharpoonup> jsval) list \<Rightarrow> (string \<rightharpoonup> jsval)" where
  "merge_all ms = foldl (++) Map.empty ms"

definition own_sources :: "(addr \<Rightarrow> (string \<rightharpoonup> jsval)) \<Rightarrow> oerror \<Rightarrow> (string \<rightharpoonup> jsval) list" where
  "own_sources objs e =
     (case get_info e of JObj ob \<Rightarrow> [objs ob] | _ \<Rightarrow> [])
     @ map (\<lambda>t. own_enumerable objs (entry_info t)) (tags_or_empty e)"

fun full_info :: "(addr \<Rightarrow> oerror) \<Rightarrow> (addr \<Rightarrow> (string \<rightharpoonup> jsval)) \<Rightarrow> nat \<Rightarrow> errval \<Rightarrow> (string \<rightharpoonup> jsval)" where
  "full_info errs objs (Suc n) (Ref a) =
     merge_all ((if truthy_err (get_cause (errs a)) then [full_info errs objs n (get_cause (errs a))] else [])
                @ own_sources objs (errs a))"
| "full_info errs objs 0 (Ref a) = Map.empty"
| "full_info errs objs n Undefined = Map.empty"
| "full_info errs objs n Null = Map.empty"

text \<open>The mapping a call of \<open>getFullInfo\<close> returns, when it returns one.\<close>

definition info_of :: "store \<Rightarrow> errval \<Rightarrow> (string \<rightharpoonup> jsval) option" where
  "info_of s r =
     (case getFullInfo s r of
        Some (Inr ob, s') \<Rightarrow> Some (objects s' ob)
      | _ \<Rightarrow> None)"

text \<open>
  The lines of a string, each with the line terminator that ends it; the last line has
  none and may be empty.
\<close>

fun lines_keep :: "string \<Rightarrow> string list" where
  "lines_keep [] = [[]]"
| "lines_keep (c # cs) =
     (if line_terminator c then [c] # lines_keep cs
      else (case lines_keep cs of [] \<Rightarrow> [[c]] | l # ls \<Rightarrow> (c # l) # ls))"

text \<open>
  Tagging one error again and again: each call brings the platform's trace for it, a
  message and an info.
\<close>

type_synonym tag_call = "platform \<times> msgval \<times> jsval"

fun tag_all :: "store \<Rightarrow> errval \<Rightarrow> tag_call list \<Rightarrow> js_error + (errval \<times> store)" where
  "tag_all s error [] = Inr (error, s)"
| "tag_all s error ((plat, m, i) # calls) =
     (case tag plat s error m i of
        Inl e \<Rightarrow> Inl e
      | Inr (error', s') \<Rightarrow> tag_all s' error' calls)"

text \<open>The tag object the call \<open>c\<close> of \<open>OError.tag\<close> makes, as an array slot.\<close>

fun tag_of :: "tag_call \<Rightarrow> tag_entry" where
  "tag_of (plat, m, i) = Tagged (make_tag plat OError_tag m i)"

text \<open>The tag sequence of the error at \<open>a\<close> once the calls have been made.\<close>

definition tags_after :: "store \<Rightarrow> addr \<Rightarrow> tag_call list \<Rightarrow> tag_entry list" where
  "tags_after s a calls =
     (case tag_all s (Ref a) calls of
        Inl e \<Rightarrow> []
      | Inr (error, s') \<Rightarrow> tags_or_empty (errors s' a))"

text \<open>
  What the tag array holds once the tags \<open>ts\<close> have been made one after another on an
  untagged error, for a limit of at least 2: all of them up to the limit; beyond it the
  first one, the marker, and the most recent \<open>limit - 1\<close>.
\<close>

definition kept :: "nat \<Rightarrow> tag_entry list \<Rightarrow> tag_entry list" where
  "kept limit ts =
     (if length ts \<le> limit then ts
      else hd ts # DROPPED_TAGS_ERROR # drop (length ts - (limit - 1)) ts)"


section \<open>Scenarios\<close>

text \<open>
  The store when the module has been loaded: nothing allocated, \<open>OError.maxTags = 100\<close>
  (line 170).
\<close>

definition blank :: oerror where
  "blank = \<lparr>message = [], name = ''Error'', info = None, cause = None, stack = None, oErrorTags = None\<rparr>"

definition initial_store :: store where
  "initial_store =
     \<lparr>errors = (\<lambda>a. blank), objects = (\<lambda>a. Map.empty), next_error = 0, next_object = 0, maxTags = 100\<rparr>"

text \<open>An object literal with the given properties, in user code.\<close>

definition object_literal :: "store \<Rightarrow> (string \<rightharpoonup> jsval) \<Rightarrow> jsval \<times> store" where
  "object_literal s props =
     (JObj (next_object s),
      s\<lparr>objects := (objects s)(next_object s := props), next_object := Suc (next_object s)\<rparr>)"

text \<open>The store a tagging call leaves behind; a call that throws leaves it as it was.\<close>

definition after :: "store \<Rightarrow> js_error + (errval \<times> store) \<Rightarrow> store" where
  "after s r = (case r of Inl e \<Rightarrow> s | Inr (v, s') \<Rightarrow> s')"

text \<open>A new \<open>OError\<close> in the initial store, and \<open>n\<close> calls numbered from 1.\<close>

definition one_error :: store where
  "one_error = snd (new_OError initial_store ''OError'' (Some ''OError: boom'') ''boom'' JUndefined Undefined)"

definition numbered_calls :: "nat \<Rightarrow> tag_call list" where
  "numbered_calls n =
     map (\<lambda>k. (CaptureStackTrace ''TaggedError: at a call'', MsgString (string_of_nat k), JNum (int k))) [1..<Suc n]"

text \<open>\<open>E.withCause(E)\<close>: an error that is its own cause.\<close>

definition self_caused :: store where
  "self_caused = snd (withCause one_error 0 (Ref 0))"

text \<open>
  \<open>E = new OError('e', {a: 1}); OError.tag(E, 'm1', {a: 2}); OError.tag(E, 'm2', {a: 3})\<close>.
  \<open>E\<close> is at address 0 and the three literals at 0, 1 and 2.
\<close>

definition tagged_twice :: store where
  "tagged_twice =
     (let (i1, s1) = object_literal initial_store [''a'' \<mapsto> JNum 1];
          (e, s2) = new_OError s1 ''OError'' (Some ''OError: e'') ''e'' i1 Undefined;
          (i2, s3) = object_literal s2 [''a'' \<mapsto> JNum 2];
          s4 = after s3 (tag (CaptureStackTrace ''TaggedError: m1'') s3 e (MsgString ''m1'') i2);
          (i3, s5) = object_literal s4 [''a'' \<mapsto> JNum 3]
      in after s5 (tag (CaptureStackTrace ''TaggedError: m2'') s5 e (MsgString ''m2'') i3))"

text \<open>
  \<open>cause = new OError('c', {x: 1}); E = new OError('e', {x: 2}, cause)\<close>. The cause is
  at address 0 and \<open>E\<close> at 1.
\<close>

definition caused :: store where
  "caused =
     (let (i1, s1) = object_literal initial_store [''x'' \<mapsto> JNum 1];
          (c, s2) = new_OError s1 ''OError'' (Some ''OError: c'') ''c'' i1 Undefined;
          (i2, s3) = object_literal s2 [''x'' \<mapsto> JNum 2]
      in snd (new_OError s3 ''OError'' (Some ''OError: e'') ''e'' i2 c))"

text \<open>\<open>cause = new OError('c', {x: 1}); E = new OError('e', null, cause)\<close>.\<close>

definition cause_only :: store where
  "cause_only =
     (let (i1, s1) = object_literal initial_store [''x'' \<mapsto> JNum 1]
      in snd (new_OError s1 ''OError'' (Some ''OError: c'') ''c'' i1 Undefined))"

definition caused_without_info :: store where
  "caused_without_info = snd (new_OError cause_only ''OError'' (Some ''OError: e'') ''e'' JNull (Ref 0))"

text \<open>
  \<open>cause = new OError('c'); E = new OError('e', undefined, cause); OError.tag(E, 't1');
  OError.tag(E, 't2')\<close>, with two-line stacks for both errors. The cause is at address 0
  and \<open>E\<close> at 1.
\<close>

definition two_tags_one_cause :: store where
  "two_tags_one_cause =
     (let (c, s1) = new_OError initial_store ''OError'' (Some (''OError: c'' @ newline @ ''    at g''))
                      ''c'' JUndefined Undefined;
          (e, s2) = new_OError s1 ''OError'' (Some (''OError: e'' @ newline @ ''    at f''))
                      ''e'' JUndefined c;
          s3 = after s2 (tag (CaptureStackTrace ''TaggedError: t1'') s2 e (MsgString ''t1'') JUndefined)
      in after s3 (tag (CaptureStackTrace ''TaggedError: t2'') s3 e (MsgString ''t2'') JUndefined))"


section \<open>The capacity policy of \<open>tag\<close>\<close>

lemma tag_Ref:
  "tag plat s (Ref a) m i =
     Inr (Ref a, s\<lparr>errors := (errors s)(a := (errors s a)\<lparr>oErrorTags :=
        Some (make_room (maxTags s) (tags_or_empty (errors s a)) @ [tag_of (plat, m, i)])\<rparr>)\<rparr>)"
  by (simp add: tag_def Let_def)

lemma tag_all_append:
  "tag_all s e (xs @ ys) =
     (case tag_all s e xs of Inl x \<Rightarrow> Inl x | Inr (e', s') \<Rightarrow> tag_all s' e' ys)"
  by (induction s e xs rule: tag_all.induct) (auto split: sum.splits)

lemma make_room_below: "length ts < limit \<Longrightarrow> make_room limit ts = ts"
  by (simp add: make_room_def)

lemma make_room_first_overflow:
  assumes "limit \<le> length ts" "2 \<le> length ts" "ts ! 1 \<noteq> DROPPED_TAGS_ERROR"
  shows "make_room limit ts = hd ts # DROPPED_TAGS_ERROR # drop 2 ts"
proof -
  obtain x y rest where ts: "ts = x # y # rest"
    using assms(2) by (cases ts; cases "tl ts") auto
  show ?thesis using assms by (simp add: ts make_room_def array_is_def array_set_def)
qed

lemma make_room_later_overflow:
  assumes "limit \<le> Suc (Suc (length rest))"
  shows "make_room limit (x # DROPPED_TAGS_ERROR # rest) = x # DROPPED_TAGS_ERROR # drop 1 rest"
  using assms by (simp add: make_room_def array_is_def array_splice_def)

lemma make_room_kept:
  assumes lim: "2 \<le> limit" and nd: "\<forall>t \<in> set ts. t \<noteq> DROPPED_TAGS_ERROR"
  shows "make_room limit (kept limit ts) @ [t] = kept limit (ts @ [t])"
proof -
  consider (below) "length ts < limit" | (full) "length ts = limit" | (over) "limit < length ts"
    by linarith
  then show ?thesis
  proof cases
    case below
    then show ?thesis by (simp add: kept_def make_room_below)
  next
    case full
    then have "2 \<le> length ts" using lim by simp
    moreover have "ts ! 1 \<noteq> DROPPED_TAGS_ERROR" using nd \<open>2 \<le> length ts\<close> by simp
    ultimately have "make_room limit ts = hd ts # DROPPED_TAGS_ERROR # drop 2 ts"
      using full by (simp add: make_room_first_overflow)
    moreover have "ts \<noteq> []" using \<open>2 \<le> length ts\<close> by auto
    ultimately show ?thesis using full lim by (simp add: kept_def)
  next
    case over
    have "make_room limit (kept limit ts)
        = hd ts # DROPPED_TAGS_ERROR # drop 1 (drop (length ts - (limit - 1)) ts)"
      using over lim by (simp add: kept_def make_room_later_overflow)
    moreover have "ts \<noteq> []" using over by auto
    ultimately show ?thesis using over lim by (simp add: kept_def Suc_diff_le)
  qed
qed

lemma tag_all_kept:
  assumes "2 \<le> maxTags s" "oErrorTags (errors s a) = None"
  shows "\<exists>s'. tag_all s (Ref a) calls = Inr (Ref a, s') \<and> maxTags s' = maxTags s
      \<and> tags_or_empty (errors s' a) = kept (maxTags s) (map tag_of calls)"
proof (induction calls rule: rev_induct)
  case Nil
  then show ?case using assms by (simp add: kept_def tags_or_empty_def)
next
  case (snoc c calls)
  then obtain s' where s': "tag_all s (Ref a) calls = Inr (Ref a, s')" "maxTags s' = maxTags s"
    "tags_or_empty (errors s' a) = kept (maxTags s) (map tag_of calls)" by blast
  obtain plat m i where c: "c = (plat, m, i)" by (cases c)
  have nd: "\<forall>t \<in> set (map tag_of calls). t \<noteq> DROPPED_TAGS_ERROR" by auto
  show ?case
    using s' make_room_kept[OF assms(1) nd, of "tag_of c"]
    by (simp add: tag_all_append c tag_Ref tags_or_empty_def)
qed

lemma tags_after_kept:
  assumes "2 \<le> maxTags s" "oErrorTags (errors s a) = None"
  shows "tags_after s a calls = kept (maxTags s) (map tag_of calls)"
  using tag_all_kept[OF assms, of calls] by (auto simp: tags_after_def)

lemma one_error_facts:
  "maxTags one_error = 100" "oErrorTags (errors one_error 0) = None"
  by (simp_all add: one_error_def new_OError_def initial_store_def Let_def)

lemma length_numbered_calls: "length (numbered_calls n) = n"
  by (simp add: numbered_calls_def)

text \<open>
  C1, as the code has it. Once more calls have been made than the limit allows (the
  limit being at least 2), the tag sequence is one longer than the limit: the first tag,
  then the marker, which occurs once, then the \<open>limit - 1\<close> most recent tags in the order
  they were made. So every new tag is appended, and the oldest tag after the marker is
  what goes.
\<close>

theorem tag_capacity:
  assumes "2 \<le> maxTags s" "oErrorTags (errors s a) = None" "maxTags s < length calls"
  shows "(\<exists>s'. tag_all s (Ref a) calls = Inr (Ref a, s'))
       \<and> length (tags_after s a calls) = maxTags s + 1
       \<and> tags_after s a calls ! 0 = tag_of (calls ! 0)
       \<and> tags_after s a calls ! 1 = DROPPED_TAGS_ERROR
       \<and> count_list (tags_after s a calls) DROPPED_TAGS_ERROR = 1
       \<and> drop 2 (tags_after s a calls) = map tag_of (drop (length calls - (maxTags s - 1)) calls)
       \<and> last (tags_after s a calls) = tag_of (last calls)"
proof -
  have ne: "calls \<noteq> []" using assms(3) by auto
  have eq: "tags_after s a calls
      = tag_of (calls ! 0) # DROPPED_TAGS_ERROR
          # map tag_of (drop (length calls - (maxTags s - 1)) calls)"
    using assms ne by (simp add: tags_after_kept kept_def hd_map hd_conv_nth drop_map)
  have nd: "DROPPED_TAGS_ERROR \<notin> set (map tag_of (drop (length calls - (maxTags s - 1)) calls))"
    by auto
  have "count_list (map tag_of (drop (length calls - (maxTags s - 1)) calls)) DROPPED_TAGS_ERROR = 0"
    using nd by (simp only: count_list_0_iff not_False_eq_True)
  moreover have "tag_of (calls ! 0) \<noteq> DROPPED_TAGS_ERROR"
    by (cases "calls ! 0") auto
  moreover have "drop (length calls - (maxTags s - 1)) calls \<noteq> []"
    using assms(1,3) by simp
  moreover have "last (drop (length calls - (maxTags s - 1)) calls) = last calls"
    using assms(1,3) by simp
  moreover have "\<exists>s'. tag_all s (Ref a) calls = Inr (Ref a, s')"
    using tag_all_kept[OF assms(1,2), of calls] by blast
  ultimately show ?thesis
    using assms by (simp add: eq last_map)
qed

theorem tag_capacity_witness:
  "2 \<le> maxTags one_error \<and> oErrorTags (errors one_error 0) = None
   \<and> maxTags one_error < length (numbered_calls 150)
   \<and> length (tags_after one_error 0 (numbered_calls 150)) = 101
   \<and> tags_after one_error 0 (numbered_calls 150) ! 0 = tag_of (numbered_calls 150 ! 0)
   \<and> tags_after one_error 0 (numbered_calls 150) ! 1 = DROPPED_TAGS_ERROR
   \<and> count_list (tags_after one_error 0 (numbered_calls 150)) DROPPED_TAGS_ERROR = 1
   \<and> last (tags_after one_error 0 (numbered_calls 150)) = tag_of (last (numbered_calls 150))"
  using tag_capacity[of one_error 0 "numbered_calls 150"]
  by (simp add: one_error_facts length_numbered_calls)

text \<open>
  C1 as the specification words it fails on that input: after 150 calls under
  the limit of 100 the sequence has 101 entries, and its last entry is the tag of the
  150th call, made long after the limit was reached.
\<close>

theorem tag_capacity_counterexample:
  "\<not> length (tags_after one_error 0 (numbered_calls 150)) \<le> 100
   \<and> last (tags_after one_error 0 (numbered_calls 150)) = tag_of (numbered_calls 150 ! 149)"
proof -
  have eq: "tags_after one_error 0 (numbered_calls 150) = kept 100 (map tag_of (numbered_calls 150))"
    by (simp add: tags_after_kept one_error_facts)
  have ne: "numbered_calls 150 \<noteq> []"
    using length_numbered_calls[of 150] by auto
  have "length (kept 100 (map tag_of (numbered_calls 150))) = 101"
    by (simp add: kept_def length_numbered_calls)
  moreover have "last (kept 100 (map tag_of (numbered_calls 150))) = tag_of (last (numbered_calls 150))"
    using ne by (simp add: kept_def length_numbered_calls last_map)
  moreover have "last (numbered_calls 150) = numbered_calls 150 ! 149"
    using ne by (simp add: last_conv_nth length_numbered_calls)
  ultimately show ?thesis by (simp add: eq)
qed


section \<open>The merged info\<close>

lemma foldl_map_add: "foldl (++) m ms = m ++ merge_all ms"
proof (induction ms rule: rev_induct)
  case Nil
  show ?case by (simp add: merge_all_def)
next
  case (snoc x xs)
  have "foldl (++) m (xs @ [x]) = foldl (++) m xs ++ x" by simp
  also have "\<dots> = (m ++ merge_all xs) ++ x" by (simp only: snoc)
  also have "\<dots> = m ++ (merge_all xs ++ x)" by (simp only: map_add_assoc)
  also have "merge_all xs ++ x = merge_all (xs @ [x])" by (simp add: merge_all_def)
  finally show ?case .
qed

lemma own_enumerable_upd:
  "(\<forall>ob. v = JObj ob \<longrightarrow> ob \<noteq> target) \<Longrightarrow> own_enumerable (objs(target := m)) v = own_enumerable objs v"
  by (cases v) (simp_all add: own_enumerable_def)

lemma merge_all_simps [simp]:
  "merge_all [] = Map.empty" "merge_all (m # ms) = m ++ merge_all ms"
  "merge_all (ms @ ms') = merge_all ms ++ merge_all ms'"
proof -
  show "merge_all [] = Map.empty" by (simp add: merge_all_def)
  show "merge_all (m # ms) = m ++ merge_all ms"
    using foldl_map_add[of m ms] by (simp add: merge_all_def)
  show "merge_all (ms @ ms') = merge_all ms ++ merge_all ms'"
    using foldl_map_add[of "merge_all ms" ms'] by (simp add: merge_all_def)
qed

lemma assign_tags_result:
  assumes "\<forall>t \<in> set ts. t \<noteq> Hole \<and> entry_info t \<noteq> JObj target"
  shows "assign_tags s target ts =
     (None, s\<lparr>objects := (objects s)(target :=
        objects s target ++ merge_all (map (\<lambda>t. own_enumerable (objects s) (entry_info t)) ts))\<rparr>)"
  using assms
proof (induction ts arbitrary: s)
  case Nil
  then show ?case by simp
next
  case (Cons t ts)
  obtain tg where tg: "fields_of t = Some tg" using Cons.prems by (cases t) auto
  then have ei: "get_tag_info tg = entry_info t" by (simp add: entry_info_def)
  have rest: "\<forall>t \<in> set ts. t \<noteq> Hole \<and> entry_info t \<noteq> JObj target" using Cons.prems by simp
  define s1 where "s1 = Object_assign s target (entry_info t)"
  have o1: "objects s1 = (objects s)(target := objects s target ++ own_enumerable (objects s) (entry_info t))"
    by (simp add: s1_def Object_assign_def)
  have src: "map (\<lambda>t. own_enumerable (objects s1) (entry_info t)) ts
           = map (\<lambda>t. own_enumerable (objects s) (entry_info t)) ts"
    unfolding o1 using rest by (intro map_cong refl own_enumerable_upd) auto
  have "assign_tags s target (t # ts) = assign_tags s1 target ts"
    using tg by (simp add: ei s1_def)
  also have "\<dots> = (None, s1\<lparr>objects := (objects s1)(target :=
        objects s1 target ++ merge_all (map (\<lambda>t. own_enumerable (objects s) (entry_info t)) ts))\<rparr>)"
    using Cons.IH[OF rest, of s1] by (simp only: src)
  also have "s1\<lparr>objects := (objects s1)(target :=
        objects s1 target ++ merge_all (map (\<lambda>t. own_enumerable (objects s) (entry_info t)) ts))\<rparr>
      = s\<lparr>objects := (objects s)(target :=
        objects s target ++ merge_all (map (\<lambda>t. own_enumerable (objects s) (entry_info t)) (t # ts)))\<rparr>"
    by (simp add: s1_def Object_assign_def)
  finally show ?case .
qed

lemma merge_own_result:
  assumes "get_info (errors s a) \<noteq> JObj target"
    and "\<forall>t \<in> set (tags_or_empty (errors s a)). t \<noteq> Hole \<and> entry_info t \<noteq> JObj target"
  shows "merge_own s target a =
     (Inr target, s\<lparr>objects := (objects s)(target :=
        objects s target ++ merge_all (own_sources (objects s) (errors s a)))\<rparr>)"
proof -
  define v where "v = get_info (errors s a)"
  define s1 where "s1 = (if typeof_object v then Object_assign s target v else s)"
  have o1: "objects s1 = (objects s)(target := objects s target ++ (case v of JObj ob \<Rightarrow> objects s ob | _ \<Rightarrow> Map.empty))"
    by (cases v) (auto simp: s1_def Object_assign_def own_enumerable_def)
  have e1: "errors s1 = errors s" by (simp add: s1_def Object_assign_def)
  have src: "map (\<lambda>t. own_enumerable (objects s1) (entry_info t)) (tags_or_empty (errors s a))
           = map (\<lambda>t. own_enumerable (objects s) (entry_info t)) (tags_or_empty (errors s a))"
    unfolding o1 using assms(2) by (intro map_cong refl own_enumerable_upd) auto
  have fin: "s1\<lparr>objects := (objects s1)(target := objects s1 target
          ++ merge_all (map (\<lambda>t. own_enumerable (objects s) (entry_info t)) (tags_or_empty (errors s a))))\<rparr>
        = s\<lparr>objects := (objects s)(target :=
        objects s target ++ merge_all (own_sources (objects s) (errors s a)))\<rparr>"
    by (cases v) (auto simp: s1_def Object_assign_def own_enumerable_def own_sources_def v_def[symmetric])
  have mo: "merge_own s target a =
      (case oErrorTags (errors s a) of
         None \<Rightarrow> (Inr target, s1)
       | Some ts \<Rightarrow> (case assign_tags s1 target ts of
                      (Some e, s2) \<Rightarrow> (Inl e, s2) | (None, s2) \<Rightarrow> (Inr target, s2)))"
    unfolding merge_own_def Let_def s1_def v_def ..
  show ?thesis
  proof (cases "oErrorTags (errors s a)")
    case None
    then have "merge_own s target a = (Inr target, s1)"
      by (simp add: mo)
    moreover have "tags_or_empty (errors s a) = []" using None by (simp add: tags_or_empty_def)
    ultimately show ?thesis using fin by simp
  next
    case (Some ts)
    then have ts: "tags_or_empty (errors s a) = ts" by (simp add: tags_or_empty_def)
    have "assign_tags s1 target ts = (None, s1\<lparr>objects := (objects s1)(target :=
        objects s1 target ++ merge_all (map (\<lambda>t. own_enumerable (objects s1) (entry_info t)) ts))\<rparr>)"
      using assms(2) by (intro assign_tags_result) (simp add: ts)
    then have "merge_own s target a = (Inr target, s1\<lparr>objects := (objects s1)(target :=
        objects s1 target ++ merge_all (map (\<lambda>t. own_enumerable (objects s1) (entry_info t)) ts))\<rparr>)"
      using Some by (simp add: mo)
    then show ?thesis unfolding src[unfolded ts] fin[unfolded ts] .
  qed
qed


lemma own_enumerable_cong:
  assumes "allocated s v" "\<forall>ob < next_object s. objs ob = objects s ob"
  shows "own_enumerable objs v = own_enumerable (objects s) v"
  using assms by (cases v) (simp_all add: own_enumerable_def allocated_def)

lemma own_sources_cong:
  assumes "wf_error s e" "\<forall>ob < next_object s. objs ob = objects s ob"
  shows "own_sources objs e = own_sources (objects s) e"
proof -
  have "map (\<lambda>t. own_enumerable objs (entry_info t)) (tags_or_empty e)
      = map (\<lambda>t. own_enumerable (objects s) (entry_info t)) (tags_or_empty e)"
    using assms by (intro map_cong refl own_enumerable_cong) (auto simp: wf_error_def)
  moreover have "(case get_info e of JObj ob \<Rightarrow> [objs ob] | _ \<Rightarrow> [])
      = (case get_info e of JObj ob \<Rightarrow> [objects s ob] | _ \<Rightarrow> [])"
    using assms by (cases "get_info e") (auto simp: wf_error_def allocated_def)
  ultimately show ?thesis by (simp only: own_sources_def)
qed

lemma full_info_cong:
  assumes "wf_store s" "\<forall>ob < next_object s. objs ob = objects s ob"
  shows "full_info (errors s) objs n r = full_info (errors s) (objects s) n r"
proof (induction n arbitrary: r)
  case 0
  show ?case by (cases r) simp_all
next
  case (Suc n)
  show ?case
  proof (cases r)
    case (Ref a)
    have "wf_error s (errors s a)" using assms(1) by (simp add: wf_store_def)
    then have "own_sources objs (errors s a) = own_sources (objects s) (errors s a)"
      using assms(2) by (rule own_sources_cong)
    then show ?thesis using Suc.IH by (simp add: Ref)
  qed simp_all
qed

lemma wf_error_not_fresh:
  assumes "wf_error s e" "next_object s \<le> target"
  shows "get_info e \<noteq> JObj target"
    and "\<forall>t \<in> set (tags_or_empty e). t \<noteq> Hole \<and> entry_info t \<noteq> JObj target"
  using assms by (auto simp: wf_error_def allocated_def)

lemma allocated_mono:
  "allocated s v \<Longrightarrow> next_object s \<le> next_object s' \<Longrightarrow> allocated s' v"
  by (cases v) (simp_all add: allocated_def)

lemma wf_store_mono:
  assumes "wf_store s" "errors s' = errors s" "next_object s \<le> next_object s'"
  shows "wf_store s'"
  using assms unfolding wf_store_def wf_error_def
  by (auto intro: allocated_mono)

lemma getFullInfo_falsy:
  "\<not> truthy_err r \<Longrightarrow> getFullInfo s r = Some (Inr (next_object s), snd (new_object s))"
  by (cases r) (simp_all add: getFullInfo.simps new_object_def)

lemma getFullInfo_Ref:
  "getFullInfo s (Ref a) =
     (let target = next_object s; s0 = snd (new_object s); c = get_cause (errors s a)
      in if truthy_err c
         then Option.bind (getFullInfo s0 c)
                (\<lambda>(r, s1). case r of
                    Inl e \<Rightarrow> Some (Inl e, s1)
                  | Inr causeInfo \<Rightarrow> Some (merge_own (Object_assign s1 target (JObj causeInfo)) target a))
         else Some (merge_own s0 target a))"
  by (subst getFullInfo.simps) (simp add: new_object_def Let_def)

lemma getFullInfo_returns:
  assumes "chain_ends (errors s) n r" "wf_store s"
  shows "\<exists>s'. getFullInfo s r = Some (Inr (next_object s), s')
           \<and> errors s' = errors s \<and> maxTags s' = maxTags s \<and> next_error s' = next_error s
           \<and> next_object s < next_object s'
           \<and> (\<forall>ob < next_object s. objects s' ob = objects s ob)
           \<and> objects s' (next_object s) = full_info (errors s) (objects s) n r"
  using assms
proof (induction n arbitrary: s r)
  case 0
  then have f: "\<not> truthy_err r" by (cases r) simp_all
  then have "full_info (errors s) (objects s) 0 r = Map.empty" by (cases r) simp_all
  then show ?case using getFullInfo_falsy[OF f, of s] by (simp add: new_object_def)
next
  case (Suc n)
  show ?case
  proof (cases r)
    case (Ref a)
    define target where "target = next_object s"
    define s0 where "s0 = snd (new_object s)"
    define c where "c = get_cause (errors s a)"
    have s0: "errors s0 = errors s" "maxTags s0 = maxTags s" "next_error s0 = next_error s"
      "next_object s0 = Suc target" "objects s0 = (objects s)(target := Map.empty)"
      by (simp_all add: s0_def new_object_def target_def)
    have wf0: "wf_store s0"
      by (rule wf_store_mono[OF Suc.prems(2)]) (simp_all add: s0 target_def)
    have wfa: "wf_error s (errors s a)" using Suc.prems(2) by (simp add: wf_store_def)
    have agree0: "\<forall>ob < next_object s. objects s0 ob = objects s ob"
      by (simp add: s0 target_def)
    show ?thesis
    proof (cases "truthy_err c")
      case False
      have nf: "get_info (errors s0 a) \<noteq> JObj target"
        "\<forall>t \<in> set (tags_or_empty (errors s0 a)). t \<noteq> Hole \<and> entry_info t \<noteq> JObj target"
        using wf_error_not_fresh[OF wfa, of target] by (simp_all add: s0 target_def)
      have g: "getFullInfo s r = Some (merge_own s0 target a)"
        using False by (simp add: Ref getFullInfo_Ref Let_def c_def s0_def target_def)
      have src: "own_sources (objects s0) (errors s a) = own_sources (objects s) (errors s a)"
        using wfa agree0 by (rule own_sources_cong)
      have fi: "full_info (errors s) (objects s) (Suc n) r = merge_all (own_sources (objects s) (errors s a))"
        using False by (simp add: Ref c_def)
      show ?thesis
        unfolding g merge_own_result[OF nf] fi
        by (simp add: s0 src[unfolded s0(5) target_def] target_def)
    next
      case True
      have ce: "chain_ends (errors s0) n c" using Suc.prems(1) by (simp add: Ref c_def s0)
      from Suc.IH[OF ce wf0] obtain s1 where s1:
        "getFullInfo s0 c = Some (Inr (next_object s0), s1)"
        "errors s1 = errors s0" "maxTags s1 = maxTags s0" "next_error s1 = next_error s0"
        "next_object s0 < next_object s1"
        "\<forall>ob < next_object s0. objects s1 ob = objects s0 ob"
        "objects s1 (next_object s0) = full_info (errors s0) (objects s0) n c"
        by blast
      have cf: "objects s1 (Suc target) = full_info (errors s) (objects s) n c"
        using s1(7) unfolding s0(1) s0(4) full_info_cong[OF Suc.prems(2) agree0] .
      define s2 where "s2 = Object_assign s1 target (JObj (Suc target))"
      have s2: "errors s2 = errors s" "maxTags s2 = maxTags s" "next_error s2 = next_error s"
        "next_object s2 = next_object s1"
        "objects s2 = (objects s1)(target := full_info (errors s) (objects s) n c)"
        using s1(2-4) s1(6) cf by (simp_all add: s2_def Object_assign_def s0 own_enumerable_def)
      have agree2: "\<forall>ob < next_object s. objects s2 ob = objects s ob"
        using s1(6) by (simp add: s2 s0 target_def)
      have nf: "get_info (errors s2 a) \<noteq> JObj target"
        "\<forall>t \<in> set (tags_or_empty (errors s2 a)). t \<noteq> Hole \<and> entry_info t \<noteq> JObj target"
        using wf_error_not_fresh[OF wfa, of target] by (simp_all add: s2 target_def)
      have g: "getFullInfo s r = Some (merge_own s2 target a)"
        using True s1(1) unfolding s0(4)
        by (simp add: Ref getFullInfo_Ref Let_def c_def[symmetric] s0_def[symmetric]
            target_def[symmetric] s2_def)
      have src: "own_sources (objects s2) (errors s a) = own_sources (objects s) (errors s a)"
        using wfa agree2 by (rule own_sources_cong)
      have fi: "full_info (errors s) (objects s) (Suc n) r
          = full_info (errors s) (objects s) n c ++ merge_all (own_sources (objects s) (errors s a))"
        using True by (simp add: Ref c_def)
      show ?thesis
        unfolding g merge_own_result[OF nf] fi
        using s1(5) agree2[unfolded s2(5) target_def]
        by (simp add: s2 src[unfolded s2(5) target_def] s0 target_def)
    qed
  next
    case Undefined
    then show ?thesis using getFullInfo_falsy[of r s] by (simp add: new_object_def)
  next
    case Null
    then show ?thesis using getFullInfo_falsy[of r s] by (simp add: new_object_def)
  qed
qed


section \<open>Termination of the queries\<close>

lemma chain_ends_mono: "chain_ends errs n r \<Longrightarrow> chain_ends errs (Suc n) r"
  by (induction errs n r rule: chain_ends.induct) simp_all

lemma getFullInfo_chain:
  assumes "getFullInfo s r = Some y"
  shows "\<exists>n. chain_ends (errors s) n r"
  using assms
proof (induction s r y rule: getFullInfo.raw_induct[rotated 1, consumes 1, case_names step])
  case (step getFullInfo s r y)
  show ?case
  proof (cases r)
    case (Ref a)
    show ?thesis
    proof (cases "truthy_err (get_cause (errors s a))")
      case True
      then obtain z where "getFullInfo (snd (new_object s)) (get_cause (errors s a)) = Some z"
        using step(2) by (auto simp: Ref new_object_def split: Option.bind_splits)
      then obtain n where "chain_ends (errors (snd (new_object s))) n (get_cause (errors s a))"
        using step(1) by blast
      then have "chain_ends (errors s) (Suc n) r" by (simp add: Ref new_object_def)
      then show ?thesis ..
    next
      case False
      then have "chain_ends (errors s) (Suc 0) r" by (cases "get_cause (errors s a)") (simp_all add: Ref)
      then show ?thesis ..
    qed
  next
    case Undefined then have "chain_ends (errors s) 0 r" by simp then show ?thesis ..
  next
    case Null then have "chain_ends (errors s) 0 r" by simp then show ?thesis ..
  qed
qed

lemma getFullStack_chain:
  assumes "getFullStack s r = Some y"
  shows "\<exists>n. chain_ends (errors s) n r"
  using assms
proof (induction s r y rule: getFullStack.raw_induct[rotated 1, consumes 1, case_names step])
  case (step getFullStack s r y)
  show ?case
  proof (cases r)
    case (Ref a)
    show ?thesis
    proof (cases "truthy_err (get_cause (errors s a))")
      case True
      then obtain z where "getFullStack s (get_cause (errors s a)) = Some z"
        using step(2) by (auto simp: Ref Let_def split: Option.bind_splits)
      then obtain n where "chain_ends (errors s) n (get_cause (errors s a))"
        using step(1) by blast
      then have "chain_ends (errors s) (Suc n) r" by (simp add: Ref)
      then show ?thesis ..
    next
      case False
      then have "chain_ends (errors s) (Suc 0) r" by (cases "get_cause (errors s a)") (simp_all add: Ref)
      then show ?thesis ..
    qed
  next
    case Undefined then have "chain_ends (errors s) 0 r" by simp then show ?thesis ..
  next
    case Null then have "chain_ends (errors s) 0 r" by simp then show ?thesis ..
  qed
qed

lemma getFullStack_falsy: "\<not> truthy_err r \<Longrightarrow> getFullStack s r = Some []"
  by (cases r) (simp_all add: getFullStack.simps)

lemma getFullStack_Ref:
  "getFullStack s (Ref a) =
     (if truthy_err (get_cause (errors s a))
      then Option.bind (getFullStack s (get_cause (errors s a)))
             (\<lambda>causeStack. Some (if causeStack \<noteq> []
                   then own_stack (errors s a) @ newline @ ''caused by:'' @ newline @ indent causeStack
                   else own_stack (errors s a)))
      else Some (own_stack (errors s a)))"
  by (subst getFullStack.simps) (simp add: Let_def)

lemma own_stack_nonempty: "own_stack e \<noteq> []"
  by (auto simp: own_stack_def Let_def split: option.splits)

lemma getFullStack_returns:
  assumes "chain_ends (errors s) n r"
  shows "\<exists>t. getFullStack s r = Some t \<and> (truthy_err r \<longrightarrow> t \<noteq> [])"
  using assms
proof (induction n arbitrary: r)
  case 0
  then have "\<not> truthy_err r" by (cases r) simp_all
  then show ?case by (simp add: getFullStack_falsy)
next
  case (Suc n)
  show ?case
  proof (cases r)
    case (Ref a)
    show ?thesis
    proof (cases "truthy_err (get_cause (errors s a))")
      case True
      have "chain_ends (errors s) n (get_cause (errors s a))" using Suc.prems by (simp add: Ref)
      from Suc.IH[OF this] obtain t where "getFullStack s (get_cause (errors s a)) = Some t" by blast
      then show ?thesis using True by (simp add: Ref getFullStack_Ref own_stack_nonempty)
    next
      case False
      then show ?thesis by (simp add: Ref getFullStack_Ref own_stack_nonempty)
    qed
  qed (simp_all add: getFullStack_falsy)
qed

lemma getFullInfo_terminates:
  assumes "chain_ends (errors s) n r"
  shows "\<exists>y. getFullInfo s r = Some y"
  using assms
proof (induction n arbitrary: s r)
  case 0
  then have "\<not> truthy_err r" by (cases r) simp_all
  then show ?case by (simp add: getFullInfo_falsy)
next
  case (Suc n)
  show ?case
  proof (cases r)
    case (Ref a)
    show ?thesis
    proof (cases "truthy_err (get_cause (errors s a))")
      case True
      have "chain_ends (errors (snd (new_object s))) n (get_cause (errors s a))"
        using Suc.prems by (simp add: Ref new_object_def)
      from Suc.IH[OF this] obtain y where
        "getFullInfo (snd (new_object s)) (get_cause (errors s a)) = Some y" by blast
      then show ?thesis using True
        by (cases y) (simp add: Ref getFullInfo_Ref Let_def split: sum.splits)
    next
      case False
      then show ?thesis by (simp add: Ref getFullInfo_Ref Let_def)
    qed
  qed (simp_all add: getFullInfo_falsy)
qed

lemma self_caused_cause: "get_cause (errors self_caused 0) = Ref 0"
  by (simp add: self_caused_def withCause_def get_cause_def)

lemma self_caused_never_ends: "\<not> chain_ends (errors self_caused) n (Ref 0)"
  by (induction n) (simp_all add: self_caused_cause)

text \<open>
  C8. Each query returns exactly when the cause chain of its argument ends, so on every
  finite, acyclic chain both return; neither has a guard against a cycle, and on the
  error that is its own cause neither returns.
\<close>

theorem aggregation_termination:
  "((\<exists>y. getFullInfo s r = Some y) \<longleftrightarrow> (\<exists>n. chain_ends (errors s) n r))
   \<and> ((\<exists>t. getFullStack s r = Some t) \<longleftrightarrow> (\<exists>n. chain_ends (errors s) n r))
   \<and> get_cause (errors self_caused 0) = Ref 0
   \<and> getFullInfo self_caused (Ref 0) = None
   \<and> getFullStack self_caused (Ref 0) = None"
proof -
  have "getFullInfo self_caused (Ref 0) = None"
    using getFullInfo_chain[of self_caused "Ref 0"] self_caused_never_ends
    by (cases "getFullInfo self_caused (Ref 0)") auto
  moreover have "getFullStack self_caused (Ref 0) = None"
    using getFullStack_chain[of self_caused "Ref 0"] self_caused_never_ends
    by (cases "getFullStack self_caused (Ref 0)") auto
  moreover have "(\<exists>y. getFullInfo s r = Some y) \<longleftrightarrow> (\<exists>n. chain_ends (errors s) n r)"
    using getFullInfo_chain getFullInfo_terminates by blast
  moreover have "(\<exists>t. getFullStack s r = Some t) \<longleftrightarrow> (\<exists>n. chain_ends (errors s) n r)"
    using getFullStack_chain getFullStack_returns by blast
  ultimately show ?thesis using self_caused_cause by simp
qed

lemma caused_errors:
  "errors caused (Suc 0) = \<lparr>message = ''e'', name = ''OError'', info = Some (JObj 1), cause = Some (Ref 0),
     stack = Some ''OError: e'', oErrorTags = None\<rparr>"
  "errors caused 0 = \<lparr>message = ''c'', name = ''OError'', info = Some (JObj 0), cause = None,
     stack = Some ''OError: c'', oErrorTags = None\<rparr>"
  by (simp_all add: caused_def object_literal_def new_OError_def initial_store_def Let_def)

theorem aggregation_termination_witness:
  "chain_ends (errors caused) 2 (Ref 1)
   \<and> getFullInfo caused (Ref 1) \<noteq> None \<and> getFullStack caused (Ref 1) \<noteq> None"
proof -
  have c: "chain_ends (errors caused) 2 (Ref 1)"
    by (simp add: numeral_2_eq_2 caused_errors get_cause_def)
  then have "\<exists>n. chain_ends (errors caused) n (Ref 1)" ..
  then show ?thesis using aggregation_termination[of caused "Ref 1"] c by auto
qed


section \<open>The merge order of getFullInfo\<close>

lemma info_of_returns:
  assumes "wf_store s" "chain_ends (errors s) n r"
  shows "info_of s r = Some (full_info (errors s) (objects s) n r)"
  using getFullInfo_returns[OF assms(2,1)] by (auto simp: info_of_def)

text \<open>
  C2. On a store as the program builds it and an error whose cause chain ends,
  \<open>getFullInfo\<close> returns a newly allocated object that holds the merge the specification
  describes: the full info of the cause first, then the error's own info if it is a
  mapping, then the info of each tag in the order of tagging, a later source overwriting
  the keys of an earlier one.
\<close>

theorem getFullInfo_merge_order:
  assumes "wf_store s" "chain_ends (errors s) n (Ref a)"
  shows "(\<exists>s'. getFullInfo s (Ref a) = Some (Inr (next_object s), s')
              \<and> objects s' (next_object s) = full_info (errors s) (objects s) n (Ref a))
       \<and> info_of s (Ref a) = Some (full_info (errors s) (objects s) n (Ref a))"
  using getFullInfo_returns[OF assms(2,1)] info_of_returns[OF assms] by blast

lemma tagged_twice_store:
  "tagged_twice =
     \<lparr>errors = (\<lambda>a. blank)(0 :=
         \<lparr>message = ''e'', name = ''OError'', info = Some (JObj 0), cause = None,
          stack = Some ''OError: e'',
          oErrorTags = Some
            [Tagged \<lparr>tag_name = ''TaggedError'', tag_message = MsgString ''m1'',
                     tag_info = Some (JObj 1), tag_stack = Some ''TaggedError: m1''\<rparr>,
             Tagged \<lparr>tag_name = ''TaggedError'', tag_message = MsgString ''m2'',
                     tag_info = Some (JObj 2), tag_stack = Some ''TaggedError: m2''\<rparr>]\<rparr>),
      objects = (\<lambda>a. Map.empty)(0 := [''a'' \<mapsto> JNum 1], 1 := [''a'' \<mapsto> JNum 2], 2 := [''a'' \<mapsto> JNum 3]),
      next_error = 1, next_object = 3, maxTags = 100\<rparr>"
  by (simp add: tagged_twice_def object_literal_def new_OError_def initial_store_def Let_def
      tag_def after_def make_tag_def captureStackTrace_def tags_or_empty_def make_room_def
      numeral_2_eq_2 numeral_3_eq_3)

lemma caused_store:
  "caused =
     \<lparr>errors = (\<lambda>a. blank)(0 :=
         \<lparr>message = ''c'', name = ''OError'', info = Some (JObj 0), cause = None,
          stack = Some ''OError: c'', oErrorTags = None\<rparr>,
        Suc 0 :=
         \<lparr>message = ''e'', name = ''OError'', info = Some (JObj 1), cause = Some (Ref 0),
          stack = Some ''OError: e'', oErrorTags = None\<rparr>),
      objects = (\<lambda>a. Map.empty)(0 := [''x'' \<mapsto> JNum 1], 1 := [''x'' \<mapsto> JNum 2]),
      next_error = 2, next_object = 2, maxTags = 100\<rparr>"
  by (simp add: caused_def object_literal_def new_OError_def initial_store_def Let_def)

lemma wf_blank: "wf_error s blank"
  by (simp add: wf_error_def blank_def get_info_def allocated_def tags_or_empty_def)

lemma wf_tagged_twice: "wf_store tagged_twice"
  unfolding wf_store_def
proof
  fix a
  show "wf_error tagged_twice (errors tagged_twice a)"
    by (simp add: tagged_twice_store wf_error_def get_info_def allocated_def tags_or_empty_def
        entry_info_def get_tag_info_def blank_def)
qed

lemma wf_caused: "wf_store caused"
  unfolding wf_store_def
proof
  fix a
  show "wf_error caused (errors caused a)"
    by (simp add: caused_store wf_error_def get_info_def allocated_def tags_or_empty_def blank_def)
qed

theorem getFullInfo_merge_order_witness:
  "wf_store tagged_twice \<and> chain_ends (errors tagged_twice) 1 (Ref 0)
   \<and> info_of tagged_twice (Ref 0) = Some [''a'' \<mapsto> JNum 3]
   \<and> wf_store caused \<and> chain_ends (errors caused) 2 (Ref 1)
   \<and> info_of caused (Ref 1) = Some [''x'' \<mapsto> JNum 2]"
proof -
  have c1: "chain_ends (errors tagged_twice) 1 (Ref 0)"
    by (simp add: tagged_twice_store get_cause_def)
  have c2: "chain_ends (errors caused) 2 (Ref 1)"
    by (simp add: numeral_2_eq_2 caused_store get_cause_def)
  have f1: "full_info (errors tagged_twice) (objects tagged_twice) 1 (Ref 0) = [''a'' \<mapsto> JNum 3]"
    by (simp add: tagged_twice_store get_cause_def own_sources_def get_info_def tags_or_empty_def
        entry_info_def get_tag_info_def own_enumerable_def)
  have f2: "full_info (errors caused) (objects caused) 2 (Ref 1) = [''x'' \<mapsto> JNum 2]"
    by (simp add: numeral_2_eq_2 caused_store get_cause_def own_sources_def get_info_def
        tags_or_empty_def)
  have r1: "info_of tagged_twice (Ref 0) = Some [''a'' \<mapsto> JNum 3]"
    using getFullInfo_merge_order[OF wf_tagged_twice c1] unfolding f1 by (rule conjunct2)
  have r2: "info_of caused (Ref 1) = Some [''x'' \<mapsto> JNum 2]"
    using getFullInfo_merge_order[OF wf_caused c2] unfolding f2 by (rule conjunct2)
  show ?thesis
    using wf_tagged_twice c1 r1 wf_caused c2 r2 by (intro conjI)
qed


section \<open>The queries leave the store alone\<close>

lemma assign_tags_frame:
  assumes "assign_tags s target ts = (e, s')"
  shows "errors s' = errors s \<and> maxTags s' = maxTags s \<and> next_error s' = next_error s
       \<and> next_object s' = next_object s \<and> (\<forall>ob. ob \<noteq> target \<longrightarrow> objects s' ob = objects s ob)"
  using assms
proof (induction ts arbitrary: s)
  case Nil
  then show ?case by simp
next
  case (Cons t ts)
  show ?case
  proof (cases "fields_of t")
    case None
    then show ?thesis using Cons.prems by simp
  next
    case (Some tg)
    then have "assign_tags (Object_assign s target (get_tag_info tg)) target ts = (e, s')"
      using Cons.prems by simp
    from Cons.IH[OF this] show ?thesis by (simp add: Object_assign_def)
  qed
qed

lemma merge_own_frame:
  assumes "merge_own s target a = (res, s')"
  shows "errors s' = errors s \<and> maxTags s' = maxTags s \<and> next_error s' = next_error s
       \<and> next_object s' = next_object s \<and> (\<forall>ob. ob \<noteq> target \<longrightarrow> objects s' ob = objects s ob)
       \<and> (\<forall>i. res = Inr i \<longrightarrow> i = target)"
proof -
  define s1 where "s1 = (if typeof_object (get_info (errors s a))
                         then Object_assign s target (get_info (errors s a)) else s)"
  have f1: "errors s1 = errors s" "maxTags s1 = maxTags s" "next_error s1 = next_error s"
    "next_object s1 = next_object s" "\<forall>ob. ob \<noteq> target \<longrightarrow> objects s1 ob = objects s ob"
    by (simp_all add: s1_def Object_assign_def)
  have mo: "merge_own s target a =
      (case oErrorTags (errors s a) of
         None \<Rightarrow> (Inr target, s1)
       | Some ts \<Rightarrow> (case assign_tags s1 target ts of
                      (Some e, s2) \<Rightarrow> (Inl e, s2) | (None, s2) \<Rightarrow> (Inr target, s2)))"
    unfolding merge_own_def Let_def s1_def ..
  show ?thesis
  proof (cases "oErrorTags (errors s a)")
    case None
    then show ?thesis using assms f1 by (auto simp: mo)
  next
    case (Some ts)
    obtain e s2 where a: "assign_tags s1 target ts = (e, s2)" by (cases "assign_tags s1 target ts")
    have "s' = s2" "\<forall>i. res = Inr i \<longrightarrow> i = target"
      using assms Some a by (auto simp: mo split: option.splits)
    then show ?thesis using assign_tags_frame[OF a] f1 by simp
  qed
qed

lemma getFullInfo_frame:
  assumes "chain_ends (errors s) n r" "getFullInfo s r = Some (res, s')"
  shows "errors s' = errors s \<and> maxTags s' = maxTags s \<and> next_error s' = next_error s
       \<and> next_object s < next_object s' \<and> (\<forall>ob < next_object s. objects s' ob = objects s ob)
       \<and> (\<forall>i. res = Inr i \<longrightarrow> i = next_object s)"
  using assms
proof (induction n arbitrary: s r res s')
  case 0
  then have "\<not> truthy_err r" by (cases r) simp_all
  then show ?case using "0.prems"(2) by (auto simp: getFullInfo_falsy new_object_def)
next
  case (Suc n)
  show ?case
  proof (cases r)
    case (Ref a)
    define target where "target = next_object s"
    define s0 where "s0 = snd (new_object s)"
    define c where "c = get_cause (errors s a)"
    have s0: "errors s0 = errors s" "maxTags s0 = maxTags s" "next_error s0 = next_error s"
      "next_object s0 = Suc target" "\<forall>ob < target. objects s0 ob = objects s ob"
      by (simp_all add: s0_def new_object_def target_def)
    show ?thesis
    proof (cases "truthy_err c")
      case False
      then have "merge_own s0 target a = (res, s')"
        using Suc.prems(2) by (simp add: Ref getFullInfo_Ref Let_def c_def s0_def target_def)
      from merge_own_frame[OF this] show ?thesis using s0 by (simp add: target_def)
    next
      case True
      have ce: "chain_ends (errors s0) n c" using Suc.prems(1) by (simp add: Ref c_def s0)
      then obtain r1 s1 where g: "getFullInfo s0 c = Some (r1, s1)"
        using getFullInfo_terminates[OF ce] by auto
      note ih = Suc.IH[OF ce g]
      show ?thesis
      proof (cases r1)
        case (Inl e)
        then have "res = Inl e" "s' = s1"
          using Suc.prems(2) True g
          by (simp_all add: Ref getFullInfo_Ref Let_def c_def[symmetric] s0_def[symmetric])
        then show ?thesis using ih s0 by (simp add: target_def)
      next
        case (Inr ci)
        then have "merge_own (Object_assign s1 target (JObj ci)) target a = (res, s')"
          using Suc.prems(2) True g
          by (simp add: Ref getFullInfo_Ref Let_def c_def[symmetric] s0_def[symmetric]
              target_def[symmetric])
        from merge_own_frame[OF this] show ?thesis
          using ih s0 by (simp add: target_def Object_assign_def)
      qed
    qed
  next
    case Undefined
    then show ?thesis using Suc.prems(2) by (auto simp: getFullInfo_falsy new_object_def)
  next
    case Null
    then show ?thesis using Suc.prems(2) by (auto simp: getFullInfo_falsy new_object_def)
  qed
qed

lemma getFullStack_errors_cong_n:
  assumes "chain_ends (errors s) n r" "errors s' = errors s"
  shows "getFullStack s' r = getFullStack s r"
  using assms
proof (induction n arbitrary: r)
  case 0
  then have "\<not> truthy_err r" by (cases r) simp_all
  then show ?case by (simp add: getFullStack_falsy)
next
  case (Suc n)
  show ?case
  proof (cases r)
    case (Ref a)
    show ?thesis
    proof (cases "truthy_err (get_cause (errors s a))")
      case True
      have "chain_ends (errors s) n (get_cause (errors s a))" using Suc.prems by (simp add: Ref)
      from Suc.IH[OF this Suc.prems(2)] show ?thesis
        unfolding Ref getFullStack_Ref[of s'] getFullStack_Ref[of s] Suc.prems(2) by simp
    next
      case False
      then show ?thesis
        unfolding Ref getFullStack_Ref[of s'] getFullStack_Ref[of s] Suc.prems(2) by simp
    qed
  qed (simp_all add: getFullStack_falsy)
qed

lemma getFullStack_errors_cong:
  assumes "errors s' = errors s"
  shows "getFullStack s' r = getFullStack s r"
proof (cases "\<exists>n. chain_ends (errors s) n r")
  case True
  then show ?thesis using getFullStack_errors_cong_n[OF _ assms] by blast
next
  case False
  then have "getFullStack s r = None" using getFullStack_chain[of s r]
    by (cases "getFullStack s r") auto
  moreover have "getFullStack s' r = None" using False getFullStack_chain[of s' r] assms
    by (cases "getFullStack s' r") auto
  ultimately show ?thesis by simp
qed


text \<open>
  C9. A call of \<open>getFullInfo\<close> that returns leaves every error object (with its info
  reference, its cause and its tag sequence), the configuration and every object that
  existed before the call as they were; what it returns is an object allocated during the
  call. \<open>getFullStack\<close> only reads the store and returns a string, and what it returns is
  the same after the call as before. On a store as the program builds it a second call
  returns another new object with the same content as the first.
\<close>

theorem queries_are_pure:
  assumes "getFullInfo s r = Some (res, s')"
  shows "errors s' = errors s \<and> maxTags s' = maxTags s \<and> next_error s' = next_error s
       \<and> (\<forall>ob < next_object s. objects s' ob = objects s ob)
       \<and> next_object s < next_object s'
       \<and> (\<forall>i. res = Inr i \<longrightarrow> i = next_object s)
       \<and> getFullStack s' r = getFullStack s r
       \<and> (wf_store s \<longrightarrow>
            res = Inr (next_object s)
            \<and> (\<exists>s''. getFullInfo s' r = Some (Inr (next_object s'), s'')
                    \<and> objects s'' (next_object s') = objects s' (next_object s)
                    \<and> objects s'' (next_object s) = objects s' (next_object s)))"
proof -
  obtain n where n: "chain_ends (errors s) n r"
    using getFullInfo_chain[OF assms] by blast
  note fr = getFullInfo_frame[OF n assms]
  have st: "getFullStack s' r = getFullStack s r"
    using fr by (intro getFullStack_errors_cong) simp
  have again: "res = Inr (next_object s)
            \<and> (\<exists>s''. getFullInfo s' r = Some (Inr (next_object s'), s'')
                    \<and> objects s'' (next_object s') = objects s' (next_object s)
                    \<and> objects s'' (next_object s) = objects s' (next_object s))"
    if wf: "wf_store s"
  proof -
    from getFullInfo_returns[OF n wf] assms
    have first: "res = Inr (next_object s)"
      "objects s' (next_object s) = full_info (errors s) (objects s) n r"
      by auto
    have wf': "wf_store s'" using fr by (intro wf_store_mono[OF wf]) simp_all
    have n': "chain_ends (errors s') n r" using n fr by simp
    from getFullInfo_returns[OF n' wf'] obtain s'' where s'':
      "getFullInfo s' r = Some (Inr (next_object s'), s'')"
      "\<forall>ob < next_object s'. objects s'' ob = objects s' ob"
      "objects s'' (next_object s') = full_info (errors s') (objects s') n r"
      by blast
    have "full_info (errors s) (objects s') n r = full_info (errors s) (objects s) n r"
      using fr by (intro full_info_cong[OF wf]) simp
    moreover have "errors s' = errors s" using fr by simp
    ultimately have a1: "objects s'' (next_object s') = objects s' (next_object s)"
      using s''(3) first(2) by simp
    have "next_object s < next_object s'" using fr by simp
    then have a2: "objects s'' (next_object s) = objects s' (next_object s)"
      using s''(2) by blast
    show ?thesis using first(1) s''(1) a1 a2 by blast
  qed
  show ?thesis
    using fr st again by (intro conjI impI) blast+
qed

lemma wf_cause_only: "wf_store cause_only"
  unfolding wf_store_def
proof
  fix a
  show "wf_error cause_only (errors cause_only a)"
    by (simp add: cause_only_def object_literal_def new_OError_def initial_store_def Let_def
        wf_error_def get_info_def allocated_def tags_or_empty_def blank_def)
qed

theorem queries_are_pure_witness:
  "wf_store caused
   \<and> (\<exists>res s'. getFullInfo caused (Ref 1) = Some (res, s')
         \<and> errors s' = errors caused \<and> res = Inr (next_object caused)
         \<and> objects s' 0 = objects caused 0 \<and> objects s' 1 = objects caused 1
         \<and> getFullStack s' (Ref 1) = getFullStack caused (Ref 1)
         \<and> info_of s' (Ref 1) = Some (objects s' (next_object caused)))"
proof -
  have c: "chain_ends (errors caused) 2 (Ref 1)"
    by (simp add: numeral_2_eq_2 caused_store get_cause_def)
  obtain res s' where g: "getFullInfo caused (Ref 1) = Some (res, s')"
    using getFullInfo_terminates[OF c] by auto
  note p = queries_are_pure[OF g]
  have n: "next_object caused = 2" by (simp add: caused_store)
  have e: "errors s' = errors caused" using p by blast
  have r: "res = Inr (next_object caused)" using p wf_caused by blast
  have o: "objects s' 0 = objects caused 0" "objects s' 1 = objects caused 1"
    using p by (simp_all add: n)
  have t: "getFullStack s' (Ref 1) = getFullStack caused (Ref 1)" using p by blast
  obtain s'' where s'': "getFullInfo s' (Ref 1) = Some (Inr (next_object s'), s'')"
    "objects s'' (next_object s') = objects s' (next_object caused)"
    using p wf_caused by blast
  have i: "info_of s' (Ref 1) = Some (objects s' (next_object caused))"
    using s'' by (simp add: info_of_def)
  show ?thesis using wf_caused g e r o t i by blast
qed


section \<open>The trivial case and the constructor\<close>

lemma info_of_untagged_causeless:
  assumes "oErrorTags (errors s a) = None" "\<not> truthy_err (get_cause (errors s a))"
    "allocated s (get_info (errors s a))"
  shows "info_of s (Ref a) = Some (case get_info (errors s a) of JObj ob \<Rightarrow> objects s ob | _ \<Rightarrow> Map.empty)"
proof -
  define s0 where "s0 = snd (new_object s)"
  have s0: "errors s0 = errors s" "objects s0 = (objects s)(next_object s := Map.empty)"
    by (simp_all add: s0_def new_object_def)
  have nf: "get_info (errors s0 a) \<noteq> JObj (next_object s)"
    "\<forall>t \<in> set (tags_or_empty (errors s0 a)). t \<noteq> Hole \<and> entry_info t \<noteq> JObj (next_object s)"
    using assms(1,3) by (auto simp: s0 allocated_def tags_or_empty_def)
  have g: "getFullInfo s (Ref a) = Some (merge_own s0 (next_object s) a)"
    using assms(2) by (simp add: getFullInfo_Ref Let_def s0_def)
  have "own_sources (objects s0) (errors s a)
      = (case get_info (errors s a) of JObj ob \<Rightarrow> [objects s ob] | _ \<Rightarrow> [])"
    using assms(1,3)
    by (cases "get_info (errors s a)") (auto simp: own_sources_def tags_or_empty_def s0 allocated_def)
  then show ?thesis
    unfolding info_of_def g merge_own_result[OF nf]
    by (cases "get_info (errors s a)") (simp_all add: s0)
qed

text \<open>
  C7. For an error that has never been tagged and has no cause, \<open>getFullStack\<close> returns
  the error's own stack, or the placeholder when the stack is absent or empty, and
  \<open>getFullInfo\<close> returns a mapping equal to the error's own info, or the empty mapping
  when the info is absent (or is no mapping).
\<close>

theorem untagged_causeless_round_trip:
  assumes "oErrorTags (errors s a) = None" "\<not> truthy_err (get_cause (errors s a))"
    "allocated s (get_info (errors s a))"
  shows "getFullStack s (Ref a) =
           Some (case stack (errors s a) of
                   None \<Rightarrow> ''(no stack)''
                 | Some st \<Rightarrow> if st = [] then ''(no stack)'' else st)
       \<and> info_of s (Ref a) =
           Some (case get_info (errors s a) of JObj ob \<Rightarrow> objects s ob | _ \<Rightarrow> Map.empty)"
  using assms info_of_untagged_causeless[OF assms]
  by (simp add: getFullStack_Ref own_stack_def)

lemma cause_only_store:
  "cause_only =
     \<lparr>errors = (\<lambda>a. blank)(0 :=
         \<lparr>message = ''c'', name = ''OError'', info = Some (JObj 0), cause = None,
          stack = Some ''OError: c'', oErrorTags = None\<rparr>),
      objects = (\<lambda>a. Map.empty)(0 := [''x'' \<mapsto> JNum 1]),
      next_error = 1, next_object = 1, maxTags = 100\<rparr>"
  by (simp add: cause_only_def object_literal_def new_OError_def initial_store_def Let_def)

theorem untagged_causeless_round_trip_witness:
  "oErrorTags (errors cause_only 0) = None \<and> \<not> truthy_err (get_cause (errors cause_only 0))
   \<and> allocated cause_only (get_info (errors cause_only 0))
   \<and> getFullStack cause_only (Ref 0) = Some ''OError: c''
   \<and> info_of cause_only (Ref 0) = Some [''x'' \<mapsto> JNum 1]"
proof -
  have h: "oErrorTags (errors cause_only 0) = None" "\<not> truthy_err (get_cause (errors cause_only 0))"
    "allocated cause_only (get_info (errors cause_only 0))"
    by (simp_all add: cause_only_store get_cause_def get_info_def allocated_def)
  from untagged_causeless_round_trip[OF h] show ?thesis
    using h by (simp add: cause_only_store get_info_def)
qed

lemma caused_without_info_store:
  "caused_without_info =
     \<lparr>errors = (\<lambda>a. blank)(0 :=
         \<lparr>message = ''c'', name = ''OError'', info = Some (JObj 0), cause = None,
          stack = Some ''OError: c'', oErrorTags = None\<rparr>,
        Suc 0 :=
         \<lparr>message = ''e'', name = ''OError'', info = None, cause = Some (Ref 0),
          stack = Some ''OError: e'', oErrorTags = None\<rparr>),
      objects = (\<lambda>a. Map.empty)(0 := [''x'' \<mapsto> JNum 1]),
      next_error = 2, next_object = 1, maxTags = 100\<rparr>"
  by (simp add: caused_without_info_def cause_only_store new_OError_def)

lemma wf_caused_without_info: "wf_store caused_without_info"
  unfolding wf_store_def
proof
  fix a
  show "wf_error caused_without_info (errors caused_without_info a)"
    by (simp add: caused_without_info_store wf_error_def get_info_def allocated_def
        tags_or_empty_def blank_def)
qed

lemma info_of_caused_without_info:
  "info_of caused_without_info (Ref 1) = Some [''x'' \<mapsto> JNum 1]"
proof -
  have c: "chain_ends (errors caused_without_info) 2 (Ref 1)"
    by (simp add: numeral_2_eq_2 caused_without_info_store get_cause_def)
  have f: "full_info (errors caused_without_info) (objects caused_without_info) 2 (Ref 1)
      = [''x'' \<mapsto> JNum 1]"
    by (simp add: numeral_2_eq_2 caused_without_info_store get_cause_def own_sources_def
        get_info_def tags_or_empty_def)
  show ?thesis using info_of_returns[OF wf_caused_without_info c] unfolding f .
qed

text \<open>
  C10, as the code has it. The constructor stores \<open>info\<close> exactly when the argument is
  truthy and \<open>cause\<close> exactly when the argument is truthy, and leaves the error
  untagged. When the info argument is falsy, \<open>getFullInfo\<close> of the new error returns the
  empty mapping if the cause is absent as well, and what it returns for the cause if there
  is one.
\<close>

theorem constructor_falsy_is_absent:
  assumes "new_OError s cls st m i c = (e, s')"
  shows "e = Ref (next_error s)
       \<and> info (errors s' (next_error s)) = (if truthy i then Some i else None)
       \<and> cause (errors s' (next_error s)) = (if truthy_err c then Some c else None)
       \<and> oErrorTags (errors s' (next_error s)) = None
       \<and> (\<not> truthy i \<longrightarrow> \<not> truthy_err c \<longrightarrow> info_of s' e = Some Map.empty)
       \<and> (\<not> truthy i \<longrightarrow> truthy_err c \<longrightarrow> wf_store s' \<longrightarrow> chain_ends (errors s') n c \<longrightarrow>
            info_of s' e = info_of s' c)"
proof -
  define new where "new = next_error s"
  have e: "e = Ref new" and s': "s' = s\<lparr>errors := (errors s)(new :=
       \<lparr>message = m, name = cls, info = (if truthy i then Some i else None),
        cause = (if truthy_err c then Some c else None), stack = st, oErrorTags = None\<rparr>),
       next_error := Suc new\<rparr>"
    using assms by (auto simp: new_OError_def Let_def new_def)
  have fields: "info (errors s' new) = (if truthy i then Some i else None)"
    "cause (errors s' new) = (if truthy_err c then Some c else None)"
    "oErrorTags (errors s' new) = None"
    by (simp_all add: s')
  have none: "info_of s' e = Some Map.empty" if "\<not> truthy i" "\<not> truthy_err c"
  proof -
    have "info_of s' (Ref new) = Some (case get_info (errors s' new) of
        JObj ob \<Rightarrow> objects s' ob | _ \<Rightarrow> Map.empty)"
      using that fields
      by (intro info_of_untagged_causeless) (simp_all add: get_cause_def get_info_def allocated_def)
    then show ?thesis using that fields by (simp add: e get_info_def)
  qed
  have some: "info_of s' e = info_of s' c"
    if "\<not> truthy i" "truthy_err c" "wf_store s'" "chain_ends (errors s') n c"
  proof -
    have gc: "get_cause (errors s' new) = c" using that(2) fields by (simp add: get_cause_def)
    have ce: "chain_ends (errors s') (Suc n) (Ref new)" using that(4) gc by simp
    have "own_sources (objects s') (errors s' new) = []"
      using that(1) fields by (simp add: own_sources_def get_info_def tags_or_empty_def)
    then have "full_info (errors s') (objects s') (Suc n) (Ref new)
        = full_info (errors s') (objects s') n c"
      using that(2) gc by simp
    then show ?thesis
      using info_of_returns[OF that(3) ce] info_of_returns[OF that(3,4)] by (simp add: e)
  qed
  show ?thesis using e fields none some unfolding new_def by blast
qed

theorem constructor_falsy_is_absent_witness:
  "new_OError cause_only ''OError'' (Some ''OError: e'') ''e'' JNull (Ref 0) = (Ref 1, caused_without_info)
   \<and> \<not> truthy JNull \<and> truthy_err (Ref 0) \<and> wf_store caused_without_info
   \<and> chain_ends (errors caused_without_info) 1 (Ref 0)
   \<and> info (errors caused_without_info 1) = None
   \<and> cause (errors caused_without_info 1) = Some (Ref 0)
   \<and> info_of caused_without_info (Ref 1) = info_of caused_without_info (Ref 0)
   \<and> new_OError initial_store ''OError'' None ''e'' (JStr []) Null = (Ref 0, snd (new_OError initial_store ''OError'' None ''e'' (JStr []) Null))
   \<and> \<not> truthy (JStr []) \<and> \<not> truthy_err Null
   \<and> info_of (snd (new_OError initial_store ''OError'' None ''e'' (JStr []) Null)) (Ref 0) = Some Map.empty"
proof -
  have n: "new_OError cause_only ''OError'' (Some ''OError: e'') ''e'' JNull (Ref 0) = (Ref 1, caused_without_info)"
    by (simp add: caused_without_info_def new_OError_def Let_def cause_only_store)
  have c: "chain_ends (errors caused_without_info) 1 (Ref 0)"
    by (simp add: caused_without_info_store get_cause_def)
  have n2: "new_OError initial_store ''OError'' None ''e'' (JStr []) Null
      = (Ref 0, snd (new_OError initial_store ''OError'' None ''e'' (JStr []) Null))"
    by (simp add: new_OError_def Let_def initial_store_def)
  have ne: "next_error cause_only = 1" by (simp add: cause_only_store)
  show ?thesis
    using constructor_falsy_is_absent[OF n, of 1] constructor_falsy_is_absent[OF n2, of 0]
      wf_caused_without_info c n n2
    by (simp add: ne)
qed

text \<open>
  C10 as worded says that an untagged error built with a falsy info has an empty
  full info, whatever its cause; here the info is \<open>null\<close>, the error is untagged, and its
  full info is that of its cause.
\<close>

theorem constructor_falsy_counterexample:
  "info (errors caused_without_info 1) = None \<and> oErrorTags (errors caused_without_info 1) = None
   \<and> info_of caused_without_info (Ref 1) \<noteq> Some Map.empty"
proof -
  have f: "info (errors caused_without_info 1) = None" "oErrorTags (errors caused_without_info 1) = None"
    by (simp_all add: caused_without_info_store)
  have "info_of caused_without_info (Ref 1) \<noteq> Some Map.empty"
    unfolding info_of_caused_without_info by simp
  then show ?thesis using f by blast
qed


section \<open>The structure of the full stack\<close>

lemma join_newlines:
  "xs \<noteq> [] \<Longrightarrow> sep @ join sep xs = concat (map (\<lambda>x. sep @ x) xs)"
  by (induction sep xs rule: join.induct) simp_all

lemma own_stack_lines:
  "own_stack e =
     (case stack e of None \<Rightarrow> ''(no stack)'' | Some st \<Rightarrow> if st = [] then ''(no stack)'' else st)
     @ concat (map (\<lambda>t. newline @ entry_stack t) (tags_or_empty e))"
proof (cases "oErrorTags e")
  case None
  then show ?thesis by (simp add: own_stack_def tags_or_empty_def)
next
  case (Some ts)
  show ?thesis
  proof (cases "ts = []")
    case True
    then show ?thesis using Some by (simp add: own_stack_def tags_or_empty_def)
  next
    case False
    then have "newline @ join newline (map entry_stack ts)
        = concat (map (\<lambda>t. newline @ entry_stack t) ts)"
      using join_newlines[of "map entry_stack ts" newline] by (simp add: comp_def)
    then show ?thesis using Some False by (simp add: own_stack_def tags_or_empty_def Let_def)
  qed
qed

lemma lines_keep_nonempty: "lines_keep cs \<noteq> []"
  by (induction cs) (simp_all split: list.splits)

lemma concat_lines_keep: "concat (lines_keep cs) = cs"
proof (induction cs)
  case Nil
  show ?case by simp
next
  case (Cons c cs)
  obtain l ls where ls: "lines_keep cs = l # ls"
    using lines_keep_nonempty[of cs] by (cases "lines_keep cs") auto
  show ?case using Cons by (simp add: ls)
qed

lemma indent_rest_lines:
  "''    '' @ indent_rest cs = concat (map (\<lambda>l. ''    '' @ l) (lines_keep cs))"
proof (induction cs)
  case Nil
  show ?case by simp
next
  case (Cons c cs)
  obtain l ls where ls: "lines_keep cs = l # ls"
    using lines_keep_nonempty[of cs] by (cases "lines_keep cs") auto
  show ?case using Cons by (simp add: ls)
qed

lemma indent_lines: "indent cs = concat (map (\<lambda>l. ''    '' @ l) (lines_keep cs))"
  by (simp only: indent_def indent_rest_lines)

lemma getFullStack_Ref_nonempty:
  assumes "getFullStack s (Ref a) = Some t"
  shows "t \<noteq> []"
proof -
  obtain n where "chain_ends (errors s) n (Ref a)" using getFullStack_chain[OF assms] by blast
  from getFullStack_returns[OF this] assms show ?thesis by simp
qed

text \<open>
  C3. For an error that is not null, the full stack is the error's own stack (the
  placeholder \<open>(no stack)\<close> when the stack is absent or empty), then the stack of every
  tag in the order of tagging, each on a new line; and, when there is a cause, a new line
  with \<open>caused by:\<close> and on the next line the full stack of the cause with four spaces
  put before every line of it. A string is the concatenation of its lines.
\<close>

theorem getFullStack_structure:
  "getFullStack s (Ref a) =
     (let e = errors s a;
          own = (case stack e of
                   None \<Rightarrow> ''(no stack)''
                 | Some st \<Rightarrow> if st = [] then ''(no stack)'' else st);
          head = own @ concat (map (\<lambda>t. newline @ entry_stack t) (tags_or_empty e))
      in if truthy_err (get_cause e)
         then map_option
                (\<lambda>cs. head @ newline @ ''caused by:'' @ newline
                        @ concat (map (\<lambda>l. ''    '' @ l) (lines_keep cs)))
                (getFullStack s (get_cause e))
         else Some head)
   \<and> concat (lines_keep cs) = cs"
proof -
  have "getFullStack s (Ref a) =
     (if truthy_err (get_cause (errors s a))
      then map_option (\<lambda>cs. own_stack (errors s a) @ newline @ ''caused by:'' @ newline @ indent cs)
             (getFullStack s (get_cause (errors s a)))
      else Some (own_stack (errors s a)))"
  proof (cases "truthy_err (get_cause (errors s a))")
    case False
    then show ?thesis by (simp add: getFullStack_Ref)
  next
    case True
    then obtain c where c: "get_cause (errors s a) = Ref c"
      by (cases "get_cause (errors s a)") simp_all
    show ?thesis
    proof (cases "getFullStack s (Ref c)")
      case None
      then show ?thesis by (simp add: getFullStack_Ref c)
    next
      case (Some t)
      then have "t \<noteq> []" by (rule getFullStack_Ref_nonempty)
      then show ?thesis using Some by (simp add: getFullStack_Ref c)
    qed
  qed
  then show ?thesis
    by (simp only: Let_def own_stack_lines indent_lines concat_lines_keep simp_thms)
qed

lemma two_tags_one_cause_store:
  "two_tags_one_cause =
     \<lparr>errors = (\<lambda>a. blank)(0 :=
         \<lparr>message = ''c'', name = ''OError'', info = None, cause = None,
          stack = Some (''OError: c'' @ newline @ ''    at g''), oErrorTags = None\<rparr>,
        Suc 0 :=
         \<lparr>message = ''e'', name = ''OError'', info = None, cause = Some (Ref 0),
          stack = Some (''OError: e'' @ newline @ ''    at f''),
          oErrorTags = Some
            [Tagged \<lparr>tag_name = ''TaggedError'', tag_message = MsgString ''t1'',
                     tag_info = Some JUndefined, tag_stack = Some ''TaggedError: t1''\<rparr>,
             Tagged \<lparr>tag_name = ''TaggedError'', tag_message = MsgString ''t2'',
                     tag_info = Some JUndefined, tag_stack = Some ''TaggedError: t2''\<rparr>]\<rparr>),
      objects = (\<lambda>a. Map.empty), next_error = 2, next_object = 0, maxTags = 100\<rparr>"
  by (simp add: two_tags_one_cause_def new_OError_def initial_store_def Let_def
      tag_def after_def make_tag_def captureStackTrace_def tags_or_empty_def make_room_def)

theorem getFullStack_structure_witness:
  "getFullStack two_tags_one_cause (Ref 1) =
     Some (''OError: e'' @ newline @ ''    at f'' @ newline
           @ ''TaggedError: t1'' @ newline
           @ ''TaggedError: t2'' @ newline
           @ ''caused by:'' @ newline
           @ ''    OError: c'' @ newline @ ''        at g'')"
proof -
  have e0: "errors two_tags_one_cause 0 =
         \<lparr>message = ''c'', name = ''OError'', info = None, cause = None,
          stack = Some (''OError: c'' @ newline @ ''    at g''), oErrorTags = None\<rparr>"
    by (simp add: two_tags_one_cause_store)
  have e1: "errors two_tags_one_cause (Suc 0) =
         \<lparr>message = ''e'', name = ''OError'', info = None, cause = Some (Ref 0),
          stack = Some (''OError: e'' @ newline @ ''    at f''),
          oErrorTags = Some
            [Tagged \<lparr>tag_name = ''TaggedError'', tag_message = MsgString ''t1'',
                     tag_info = Some JUndefined, tag_stack = Some ''TaggedError: t1''\<rparr>,
             Tagged \<lparr>tag_name = ''TaggedError'', tag_message = MsgString ''t2'',
                     tag_info = Some JUndefined, tag_stack = Some ''TaggedError: t2''\<rparr>]\<rparr>"
    by (simp add: two_tags_one_cause_store)
  have c: "getFullStack two_tags_one_cause (Ref 0) = Some (''OError: c'' @ newline @ ''    at g'')"
    using getFullStack_structure[of two_tags_one_cause 0 "[]"]
    by (simp add: e0 get_cause_def tags_or_empty_def Let_def)
  show ?thesis
    using getFullStack_structure[of two_tags_one_cause 1 "[]"]
    by (simp add: e1 get_cause_def tags_or_empty_def Let_def c entry_stack_def
        newline_def line_terminator_def)
qed


section \<open>Null safety, tag and the fluent setters\<close>

lemma make_tag_caller: "make_tag plat fn m i = make_tag plat OError_tag m i"
  by (cases plat) (simp_all add: make_tag_def captureStackTrace_def)

text \<open>
  C4. A null or undefined error gives \<open>getFullInfo\<close> a new empty mapping and
  \<open>getFullStack\<close> the empty string; \<open>tagIfExists\<close> hands it back, leaves the store as
  it is and does not throw. On an error that is not null \<open>tagIfExists\<close> does what
  \<open>tag\<close> of the same file does, which is also what the \<open>tag\<close> of
  \<open>src/dist/index.js\<close> does as long as the tags are fewer than \<open>maxTags\<close>.
\<close>

theorem null_safe_operations:
  "info_of s Null = Some Map.empty \<and> info_of s Undefined = Some Map.empty
   \<and> getFullInfo s Null = Some (Inr (next_object s), snd (new_object s))
   \<and> getFullInfo s Undefined = Some (Inr (next_object s), snd (new_object s))
   \<and> errors (snd (new_object s)) = errors s
   \<and> getFullStack s Null = Some [] \<and> getFullStack s Undefined = Some []
   \<and> tagIfExists plat s Null m i = Inr (Null, s)
   \<and> tagIfExists plat s Undefined m i = Inr (Undefined, s)
   \<and> tagIfExists plat s (Ref a) m i = tag0 plat s (Ref a) m i
   \<and> (length (tags_or_empty (errors s a)) < maxTags s \<longrightarrow>
        tagIfExists plat s (Ref a) m i = tag plat s (Ref a) m i)"
proof -
  have "tagIfExists plat s (Ref a) m i = tag0 plat s (Ref a) m i"
    by (simp add: tagIfExists_def tag0_def priv_tag_def make_tag_caller[of plat OError_tagIfExists])
  moreover have "tagIfExists plat s (Ref a) m i = tag plat s (Ref a) m i"
    if "length (tags_or_empty (errors s a)) < maxTags s"
    using that
    by (simp add: tagIfExists_def priv_tag_def tag_def make_room_def
        make_tag_caller[of plat OError_tagIfExists])
  ultimately show ?thesis
    by (simp add: info_of_def getFullInfo_falsy getFullStack_falsy tagIfExists_def new_object_def)
qed

theorem null_safe_operations_witness:
  "length (tags_or_empty (errors one_error 0)) < maxTags one_error
   \<and> tagIfExists (CaptureStackTrace ''TaggedError: m'') one_error (Ref 0) (MsgString ''m'') JUndefined
     = tag (CaptureStackTrace ''TaggedError: m'') one_error (Ref 0) (MsgString ''m'') JUndefined"
proof -
  have h: "length (tags_or_empty (errors one_error 0)) < maxTags one_error"
    by (simp add: one_error_facts tags_or_empty_def)
  have "length (tags_or_empty (errors one_error 0)) < maxTags one_error \<longrightarrow>
      tagIfExists (CaptureStackTrace ''TaggedError: m'') one_error (Ref 0) (MsgString ''m'') JUndefined
      = tag (CaptureStackTrace ''TaggedError: m'') one_error (Ref 0) (MsgString ''m'') JUndefined"
    using null_safe_operations[of one_error "CaptureStackTrace ''TaggedError: m''"
        "MsgString ''m''" JUndefined 0]
    by blast
  with h show ?thesis by blast
qed

text \<open>
  C5. On an error that is not null \<open>tag\<close> does not throw and returns the reference it
  was given. The error's \<open>_oErrorTags\<close> becomes the array it held before (the empty
  one if it held none), unchanged while that is shorter than \<open>maxTags\<close> and otherwise
  with slot 1 overwritten by the marker or, when the marker is there already, slot 2
  removed, followed by the one new tag, which carries the message, the info and the stack
  of this call; nothing else in the store changes.
\<close>

theorem tag_returns_its_argument:
  "\<exists>s'. tag plat s (Ref a) m i = Inr (Ref a, s')
     \<and> oErrorTags (errors s' a) =
         Some ((let old = (case oErrorTags (errors s a) of None \<Rightarrow> [] | Some xs \<Rightarrow> xs)
                in if length old < maxTags s then old
                   else if 1 < length old \<and> old ! 1 = DROPPED_TAGS_ERROR then take 2 old @ drop 3 old
                   else if 1 < length old then old[1 := DROPPED_TAGS_ERROR]
                   else old @ replicate (1 - length old) Hole @ [DROPPED_TAGS_ERROR])
               @ [Tagged (case plat of
                    CaptureStackTrace trace \<Rightarrow>
                      \<lparr>tag_name = ''TaggedError'', tag_message = m, tag_info = Some i,
                       tag_stack = Some trace\<rparr>
                  | NoCaptureStackTrace st \<Rightarrow>
                      \<lparr>tag_name = ''TaggedError'',
                       tag_message = MsgString (case m of MsgString text \<Rightarrow> text | _ \<Rightarrow> []),
                       tag_info = (if truthy i then Some i else None), tag_stack = st\<rparr>)])
     \<and> (errors s' a)\<lparr>oErrorTags := x\<rparr> = (errors s a)\<lparr>oErrorTags := x\<rparr>
     \<and> (errors s')(a := y) = (errors s)(a := y)
     \<and> objects s' = objects s \<and> maxTags s' = maxTags s
     \<and> next_error s' = next_error s \<and> next_object s' = next_object s"
proof -
  define old where "old = (case oErrorTags (errors s a) of None \<Rightarrow> [] | Some xs \<Rightarrow> xs)"
  have field: "tags_or_empty (errors s a) = old"
    by (simp add: tags_or_empty_def old_def)
  have room: "make_room (maxTags s) old =
      (if length old < maxTags s then old
       else if 1 < length old \<and> old ! 1 = DROPPED_TAGS_ERROR then take 2 old @ drop 3 old
       else if 1 < length old then old[1 := DROPPED_TAGS_ERROR]
       else old @ replicate (1 - length old) Hole @ [DROPPED_TAGS_ERROR])"
    by (auto simp: make_room_def array_is_def array_splice_def array_set_def numeral_3_eq_3)
  have new: "make_tag plat OError_tag m i =
      (case plat of
         CaptureStackTrace trace \<Rightarrow>
           \<lparr>tag_name = ''TaggedError'', tag_message = m, tag_info = Some i, tag_stack = Some trace\<rparr>
       | NoCaptureStackTrace st \<Rightarrow>
           \<lparr>tag_name = ''TaggedError'',
            tag_message = MsgString (case m of MsgString text \<Rightarrow> text | _ \<Rightarrow> []),
            tag_info = (if truthy i then Some i else None), tag_stack = st\<rparr>)"
    by (cases plat; cases m)
       (simp_all add: make_tag_def captureStackTrace_def new_TaggedError_def)
  show ?thesis
    unfolding tag_Ref field tag_of.simps room new old_def[symmetric] Let_def
    by simp
qed

lemma tagged_twice_tags:
  "oErrorTags (errors tagged_twice 0) =
     Some [Tagged \<lparr>tag_name = ''TaggedError'', tag_message = MsgString ''m1'',
                    tag_info = Some (JObj 1), tag_stack = Some ''TaggedError: m1''\<rparr>,
           Tagged \<lparr>tag_name = ''TaggedError'', tag_message = MsgString ''m2'',
                    tag_info = Some (JObj 2), tag_stack = Some ''TaggedError: m2''\<rparr>]"
  "maxTags tagged_twice = 100"
  by (simp_all add: tagged_twice_store)

theorem tag_returns_its_argument_witness:
  "(\<exists>s'. tag (NoCaptureStackTrace None) tagged_twice (Ref 0) MsgUndefined JUndefined = Inr (Ref 0, s')
        \<and> oErrorTags (errors s' 0) =
            Some [Tagged \<lparr>tag_name = ''TaggedError'', tag_message = MsgString ''m1'',
                           tag_info = Some (JObj 1), tag_stack = Some ''TaggedError: m1''\<rparr>,
                  Tagged \<lparr>tag_name = ''TaggedError'', tag_message = MsgString ''m2'',
                           tag_info = Some (JObj 2), tag_stack = Some ''TaggedError: m2''\<rparr>,
                  Tagged \<lparr>tag_name = ''TaggedError'', tag_message = MsgString [],
                           tag_info = None, tag_stack = None\<rparr>])
   \<and> (\<exists>s'. tag (CaptureStackTrace ''TaggedError: m3'') (tagged_twice\<lparr>maxTags := 2\<rparr>) (Ref 0)
              (MsgString ''m3'') JNull = Inr (Ref 0, s')
        \<and> oErrorTags (errors s' 0) =
            Some [Tagged \<lparr>tag_name = ''TaggedError'', tag_message = MsgString ''m1'',
                           tag_info = Some (JObj 1), tag_stack = Some ''TaggedError: m1''\<rparr>,
                  DROPPED_TAGS_ERROR,
                  Tagged \<lparr>tag_name = ''TaggedError'', tag_message = MsgString ''m3'',
                           tag_info = Some JNull, tag_stack = Some ''TaggedError: m3''\<rparr>])"
proof -
  obtain s1 where r1:
    "tag (NoCaptureStackTrace None) tagged_twice (Ref 0) MsgUndefined JUndefined = Inr (Ref 0, s1)"
    "oErrorTags (errors s1 0) =
            Some [Tagged \<lparr>tag_name = ''TaggedError'', tag_message = MsgString ''m1'',
                           tag_info = Some (JObj 1), tag_stack = Some ''TaggedError: m1''\<rparr>,
                  Tagged \<lparr>tag_name = ''TaggedError'', tag_message = MsgString ''m2'',
                           tag_info = Some (JObj 2), tag_stack = Some ''TaggedError: m2''\<rparr>,
                  Tagged \<lparr>tag_name = ''TaggedError'', tag_message = MsgString [],
                           tag_info = None, tag_stack = None\<rparr>]"
    using tag_returns_its_argument[of "NoCaptureStackTrace None" tagged_twice 0 MsgUndefined
        JUndefined None blank]
    by (auto simp: tagged_twice_tags Let_def)
  obtain s2 where r2:
    "tag (CaptureStackTrace ''TaggedError: m3'') (tagged_twice\<lparr>maxTags := 2\<rparr>) (Ref 0)
              (MsgString ''m3'') JNull = Inr (Ref 0, s2)"
    "oErrorTags (errors s2 0) =
            Some [Tagged \<lparr>tag_name = ''TaggedError'', tag_message = MsgString ''m1'',
                           tag_info = Some (JObj 1), tag_stack = Some ''TaggedError: m1''\<rparr>,
                  DROPPED_TAGS_ERROR,
                  Tagged \<lparr>tag_name = ''TaggedError'', tag_message = MsgString ''m3'',
                           tag_info = Some JNull, tag_stack = Some ''TaggedError: m3''\<rparr>]"
    using tag_returns_its_argument[of "CaptureStackTrace ''TaggedError: m3''"
        "tagged_twice\<lparr>maxTags := 2\<rparr>" 0 "MsgString ''m3''" JNull None blank]
    by (auto simp: tagged_twice_tags Let_def)
  show ?thesis using r1 r2 by blast
qed

text \<open>
  C6. \<open>withInfo\<close> returns the reference of its receiver and sets the receiver's
  \<open>info\<close> to the value given, \<open>withCause\<close> returns the reference of its receiver and sets
  the receiver's \<open>cause\<close>, replacing a cause set before; neither changes another field
  of the receiver nor any other error.
\<close>

theorem fluent_setters:
  "fst (withInfo s a i) = Ref a
   \<and> info (errors (snd (withInfo s a i)) a) = Some i
   \<and> get_info (errors (snd (withInfo s a i)) a) = i
   \<and> (errors (snd (withInfo s a i)) a)\<lparr>info := x\<rparr> = (errors s a)\<lparr>info := x\<rparr>
   \<and> (errors (snd (withInfo s a i)))(a := y) = (errors s)(a := y)
   \<and> objects (snd (withInfo s a i)) = objects s
   \<and> fst (withCause s a c) = Ref a
   \<and> cause (errors (snd (withCause s a c)) a) = Some c
   \<and> get_cause (errors (snd (withCause s a c)) a) = c
   \<and> (errors (snd (withCause s a c)) a)\<lparr>cause := z\<rparr> = (errors s a)\<lparr>cause := z\<rparr>
   \<and> (errors (snd (withCause s a c)))(a := y) = (errors s)(a := y)
   \<and> get_cause (errors (snd (withCause (snd (withCause s a c)) a c')) a) = c'
   \<and> fst (withCause (snd (withInfo s a i)) a c) = fst (withInfo s a i)"
  by (simp add: withInfo_def withCause_def get_info_def get_cause_def)


section \<open>Stores the program builds\<close>

lemma set_make_room:
  assumes "1 \<le> limit"
  shows "set (make_room limit ts) \<subseteq> insert DROPPED_TAGS_ERROR (set ts)"
proof (cases "limit \<le> length ts")
  case False
  then show ?thesis by (auto simp: make_room_def)
next
  case True
  then have len: "1 \<le> length ts" using assms by simp
  show ?thesis
  proof (cases "array_is ts 1 DROPPED_TAGS_ERROR")
    case True
    then show ?thesis using \<open>limit \<le> length ts\<close>
      by (auto simp: make_room_def array_splice_def dest: in_set_takeD in_set_dropD)
  next
    case False
    have "set (array_set ts 1 DROPPED_TAGS_ERROR) \<subseteq> insert DROPPED_TAGS_ERROR (set ts)"
    proof (cases "1 < length ts")
      case True
      then show ?thesis using set_update_subset_insert[of ts 1 DROPPED_TAGS_ERROR]
        by (simp add: array_set_def)
    next
      case False
      then have "length ts = 1" using len by simp
      then show ?thesis by (auto simp: array_set_def)
    qed
    then show ?thesis using False \<open>limit \<le> length ts\<close> by (simp add: make_room_def)
  qed
qed

lemma entry_info_make_tag:
  "allocated s i \<Longrightarrow> allocated s (entry_info (Tagged (make_tag plat fn m i)))"
  by (cases plat)
     (simp_all add: entry_info_def make_tag_def captureStackTrace_def new_TaggedError_def
        get_tag_info_def allocated_def)

lemma entry_info_dropped: "allocated s (entry_info DROPPED_TAGS_ERROR)"
  by (simp add: entry_info_def dropped_tags_fields_def get_tag_info_def allocated_def)

lemma wf_error_tags:
  assumes "wf_error s e" "allocated s i"
    and "set ts \<subseteq> insert DROPPED_TAGS_ERROR (set (tags_or_empty e))"
  shows "wf_error s (e\<lparr>oErrorTags := Some (ts @ [Tagged (make_tag plat fn m i)])\<rparr>)"
proof -
  have "t \<noteq> Hole \<and> allocated s (entry_info t)" if "t \<in> set ts" for t
    using assms(1,3) that entry_info_dropped[of s] by (auto simp: wf_error_def)
  then show ?thesis
    using assms(1,2) entry_info_make_tag[of s i plat fn m]
    by (auto simp: wf_error_def tags_or_empty_def get_info_def)
qed

lemma wf_error_store:
  assumes "wf_error s e" "next_object s' = next_object s"
  shows "wf_error s' e"
proof -
  have "allocated s' v = allocated s v" for v
    using assms(2) by (cases v) (simp_all add: allocated_def)
  then show ?thesis using assms(1) by (simp add: wf_error_def)
qed

text \<open>
  The stores the program builds are the ones the statements about \<open>getFullInfo\<close> ask
  for: the initial store is one, and the constructor, an object literal, the setters, the
  tagging functions (\<open>tag\<close> as long as \<open>maxTags\<close> is at least 1) and \<open>getFullInfo\<close>
  itself keep them so, as long as an \<open>info\<close> they are given has been allocated.
\<close>

lemma wf_initial_store: "wf_store initial_store"
  by (simp add: wf_store_def initial_store_def wf_error_def blank_def get_info_def
      allocated_def tags_or_empty_def)

lemma wf_object_literal:
  assumes "wf_store s"
  shows "wf_store (snd (object_literal s props))"
    and "allocated (snd (object_literal s props)) (fst (object_literal s props))"
proof -
  show "wf_store (snd (object_literal s props))"
    by (rule wf_store_mono[OF assms]) (simp_all add: object_literal_def)
  show "allocated (snd (object_literal s props)) (fst (object_literal s props))"
    by (simp add: object_literal_def allocated_def)
qed

lemma wf_new_OError:
  assumes "wf_store s" "allocated s i"
  shows "wf_store (snd (new_OError s cls st m i c))"
  unfolding wf_store_def
proof
  fix a
  have "wf_error s (errors s a)" using assms(1) by (simp add: wf_store_def)
  then have "wf_error s (errors (snd (new_OError s cls st m i c)) a)"
    using assms(2)
    by (simp add: new_OError_def Let_def)
       (simp add: wf_error_def get_info_def tags_or_empty_def allocated_def)
  then show "wf_error (snd (new_OError s cls st m i c)) (errors (snd (new_OError s cls st m i c)) a)"
    by (rule wf_error_store) (simp add: new_OError_def Let_def)
qed

lemma wf_withInfo:
  assumes "wf_store s" "allocated s i"
  shows "wf_store (snd (withInfo s a i))"
  unfolding wf_store_def
proof
  fix b
  have "wf_error s (errors s b)" using assms(1) by (simp add: wf_store_def)
  then have "wf_error s (errors (snd (withInfo s a i)) b)"
    using assms(2)
    by (auto simp: withInfo_def wf_error_def get_info_def tags_or_empty_def)
  then show "wf_error (snd (withInfo s a i)) (errors (snd (withInfo s a i)) b)"
    by (rule wf_error_store) (simp add: withInfo_def)
qed

lemma wf_withCause:
  assumes "wf_store s"
  shows "wf_store (snd (withCause s a c))"
  unfolding wf_store_def
proof
  fix b
  have "wf_error s (errors s b)" using assms(1) by (simp add: wf_store_def)
  then have "wf_error s (errors (snd (withCause s a c)) b)"
    by (auto simp: withCause_def wf_error_def get_info_def tags_or_empty_def)
  then show "wf_error (snd (withCause s a c)) (errors (snd (withCause s a c)) b)"
    by (rule wf_error_store) (simp add: withCause_def)
qed

lemma wf_tag:
  assumes "wf_store s" "1 \<le> maxTags s" "allocated s i" "tag plat s e m i = Inr (e', s')"
  shows "wf_store s'"
proof -
  obtain a where e: "e = Ref a" using assms(4) by (cases e) (simp_all add: tag_def)
  have s': "s' = s\<lparr>errors := (errors s)(a := (errors s a)\<lparr>oErrorTags :=
        Some (make_room (maxTags s) (tags_or_empty (errors s a)) @ [Tagged (make_tag plat OError_tag m i)])\<rparr>)\<rparr>"
    using assms(4) by (simp add: e tag_Ref)
  have wa: "wf_error s (errors s b)" for b using assms(1) by (simp add: wf_store_def)
  have new: "wf_error s ((errors s a)\<lparr>oErrorTags :=
        Some (make_room (maxTags s) (tags_or_empty (errors s a)) @ [Tagged (make_tag plat OError_tag m i)])\<rparr>)"
    using wa assms(3) set_make_room[OF assms(2)] by (rule wf_error_tags)
  show ?thesis
    unfolding wf_store_def
  proof
    fix b
    have "wf_error s (errors s' b)" using wa[of b] new by (simp add: s')
    then show "wf_error s' (errors s' b)" by (rule wf_error_store) (simp add: s')
  qed
qed

lemma wf_priv_tag:
  assumes "wf_store s" "allocated s i" "priv_tag plat s e m i fn = Inr (e', s')"
  shows "wf_store s'"
proof -
  obtain a where e: "e = Ref a" using assms(3) by (cases e) (simp_all add: priv_tag_def)
  have s': "s' = s\<lparr>errors := (errors s)(a := (errors s a)\<lparr>oErrorTags :=
        Some (tags_or_empty (errors s a) @ [Tagged (make_tag plat fn m i)])\<rparr>)\<rparr>"
    using assms(3) by (simp add: e priv_tag_def Let_def)
  have wa: "wf_error s (errors s b)" for b using assms(1) by (simp add: wf_store_def)
  have new: "wf_error s ((errors s a)\<lparr>oErrorTags :=
        Some (tags_or_empty (errors s a) @ [Tagged (make_tag plat fn m i)])\<rparr>)"
    using wa assms(2) by (rule wf_error_tags) auto
  show ?thesis
    unfolding wf_store_def
  proof
    fix b
    have "wf_error s (errors s' b)" using wa[of b] new by (simp add: s')
    then show "wf_error s' (errors s' b)" by (rule wf_error_store) (simp add: s')
  qed
qed

lemma wf_getFullInfo:
  assumes "wf_store s" "getFullInfo s r = Some (res, s')"
  shows "wf_store s'"
proof -
  obtain n where n: "chain_ends (errors s) n r" using getFullInfo_chain[OF assms(2)] by blast
  from getFullInfo_frame[OF n assms(2)] show ?thesis
    by (intro wf_store_mono[OF assms(1)]) simp_all
qed

text \<open>
  With \<open>maxTags = 1\<close>, the least value the code documents, the array settles at three
  entries: the first tag, the marker and the newest tag.
\<close>

lemma tags_with_limit_one:
  "tags_after (one_error\<lparr>maxTags := 1\<rparr>) 0 (numbered_calls 3)
     = [tag_of (numbered_calls 3 ! 0), DROPPED_TAGS_ERROR, tag_of (numbered_calls 3 ! 2)]"
  by (simp add: tags_after_def numbered_calls_def tag_Ref one_error_def new_OError_def
      initial_store_def tags_or_empty_def make_room_def array_is_def array_set_def
      array_splice_def numeral_3_eq_3 upt_rec)

end
